theory Spec2Isabelle
  imports Complex_Main "HOL-Library.Word" "HOL-Library.Sublist"
begin

unbundle bit_operations_syntax

section \<open>Machine types, constants and faults\<close>

type_synonym u8 = "8 word"
type_synonym u16 = "16 word"
type_synonym u32 = "32 word"

text \<open>A \<^verbatim>\<open>signed int\<close>: 32 bits, read in two's complement by \<open>sint\<close>.\<close>

type_synonym s32 = "32 word"

text \<open>
  Every access outside an array, every division by zero and every conversion whose result
  C leaves undefined is a value of \<open>fault\<close>, and so are a loop that never ends (\<open>Hang\<close>)
  and a floating-point result that is not a finite number (\<open>NotFinite\<close>); a function that
  can commit one returns \<open>fault + 'a\<close>.
\<close>

datatype fault = OutOfBounds | DivByZero | ConversionRange | IntOverflow | Hang | NotFinite

definition NOTE_START :: nat where
  "NOTE_START = 5 * 12"

definition NOTE_END :: nat where
  "NOTE_END = NOTE_START + 26"

definition FPS :: nat where
  "FPS = 10"

definition LEDS :: nat where
  "LEDS = 8"

definition SPOT_START :: nat where
  "SPOT_START = 0"

definition SPOT_END :: nat where
  "SPOT_END = 20"

section \<open>The frame encoder \<open>convert\<close>\<close>

text \<open>
  \<open>from\<close> and \<open>to\<close> are the two arrays; the pointers \<open>from++\<close> and \<open>to++\<close> are the
  indices \<open>fi\<close> and \<open>ti\<close> into them. The inner loop is
  \<^verbatim>\<open>for (uint8_t x = 0; x != 62 && c != 512; x++, c++) *to++ = *from++;\<close>
\<close>

function convert_inner ::
  "u8 list \<Rightarrow> u8 \<Rightarrow> u16 \<Rightarrow> nat \<Rightarrow> nat \<Rightarrow> u8 list \<Rightarrow> fault + (u16 \<times> nat \<times> nat \<times> u8 list)" where
  "convert_inner from x c fi ti to =
     (if x \<noteq> 62 \<and> c \<noteq> 512 then
        (if fi < length from \<and> ti < length to
         then convert_inner from (x + 1) (c + 1) (fi + 1) (ti + 1) (to[ti := from ! fi])
         else Inl OutOfBounds)
      else Inr (c, fi, ti, to))"
  by pat_completeness auto
termination
proof (relation "measure (\<lambda>(from, x, c, fi, ti, to). unat (62 - x))")
  show "wf (measure (\<lambda>(from :: u8 list, x :: u8, c :: u16, fi :: nat, ti :: nat, to :: u8 list). unat (62 - x)))"
    by simp
next
  fix "from" :: "u8 list" and x :: u8 and c :: u16 and fi ti :: nat and to :: "u8 list"
  assume "x \<noteq> 62 \<and> c \<noteq> 512"
  then have nz: "62 - x \<noteq> 0" by simp
  have dec: "unat (y - 1) < unat y" if "y \<noteq> 0" for y :: u8
    using that by (simp add: unat_minus_one unat_gt_0)
  have "62 - (x + 1) = (62 - x) - 1" by simp
  with dec [OF nz] have "unat (62 - (x + 1)) < unat (62 - x)" by metis
  then show "((from, x + 1, c + 1, fi + 1, ti + 1, to[ti := from ! fi]), (from, x, c, fi, ti, to))
      \<in> measure (\<lambda>(from, x, c, fi, ti, to). unat (62 - x))"
    by simp
qed

declare convert_inner.simps [simp del]

text \<open>
  The outer loop \<^verbatim>\<open>for (c = 0; c != 512;)\<close> writes the two counter bytes
  \<^verbatim>\<open>c & 0xFF\<close> and \<^verbatim>\<open>c >> 8\<close> and runs the inner loop. It terminates because the
  inner loop, entered with \<open>x = 0\<close> and \<open>c \<noteq> 512\<close>, moves \<open>c\<close> strictly towards 512.
\<close>

function convert_outer ::
  "u8 list \<Rightarrow> u16 \<Rightarrow> nat \<Rightarrow> nat \<Rightarrow> u8 list \<Rightarrow> fault + u8 list" where
  "convert_outer from c fi ti to =
     (if c \<noteq> 512 then
        (if ti + 1 < length to then
           (case convert_inner from 0 c fi (ti + 2)
                   (to[ti := ucast (c AND 0xFF), ti + 1 := ucast (drop_bit 8 c)]) of
              Inl e \<Rightarrow> Inl e
            | Inr (c', fi', ti', to') \<Rightarrow> convert_outer from c' fi' ti' to')
         else Inl OutOfBounds)
      else Inr to)"
  by pat_completeness auto
termination
proof (relation "measure (\<lambda>(from, c, fi, ti, to). unat (512 - c))")
  show "wf (measure (\<lambda>(from :: u8 list, c :: u16, fi :: nat, ti :: nat, to :: u8 list). unat (512 - c)))"
    by simp
next
  fix "from" :: "u8 list" and c :: u16 and fi ti :: nat and to :: "u8 list"
    and r :: "u16 \<times> nat \<times> nat \<times> u8 list" and c' :: u16 and rest :: "nat \<times> nat \<times> u8 list"
    and fi' :: nat and rest' :: "nat \<times> u8 list" and ti' :: nat and to' :: "u8 list"
  assume c: "c \<noteq> 512"
    and run: "convert_inner from 0 c fi (ti + 2)
        (to[ti := ucast (c AND 0xFF), ti + 1 := ucast (drop_bit 8 c)]) = Inr r"
    and r: "(c', rest) = r" "(fi', rest') = rest" "(ti', to') = rest'"
  have dec: "unat (y - 1) < unat y" if "y \<noteq> 0" for y :: u16
    using that by (simp add: unat_minus_one unat_gt_0)
  have inner: "convert_inner f x d i j t = Inr (d', q) \<Longrightarrow>
      unat (512 - d') \<le> unat (512 - d) \<and> (x \<noteq> 62 \<and> d \<noteq> 512 \<longrightarrow> unat (512 - d') < unat (512 - d))"
    for f x d i j t d' q
  proof (induction f x d i j t rule: convert_inner.induct)
    case (1 f x d i j t)
    show ?case
    proof (cases "x \<noteq> 62 \<and> d \<noteq> 512")
      case False
      with "1.prems" show ?thesis
        by (simp add: convert_inner.simps [of f x d i j t])
    next
      case True
      with "1.prems" have ok: "i < length f \<and> j < length t"
        and next_run: "convert_inner f (x + 1) (d + 1) (i + 1) (j + 1) (t[j := f ! i]) = Inr (d', q)"
        by (auto simp: convert_inner.simps [of f x d i j t] split: if_splits)
      from "1.IH" [OF True ok next_run]
      have le: "unat (512 - d') \<le> unat (512 - (d + 1))" by simp
      from True have "512 - d \<noteq> 0" by simp
      from dec [OF this] have "unat (512 - d - 1) < unat (512 - d)" .
      moreover have "512 - (d + 1) = 512 - d - 1" by simp
      ultimately have "unat (512 - (d + 1)) < unat (512 - d)" by metis
      with le True show ?thesis by simp
    qed
  qed
  from run r have "convert_inner from 0 c fi (ti + 2)
        (to[ti := ucast (c AND 0xFF), ti + 1 := ucast (drop_bit 8 c)]) = Inr (c', rest)"
    by simp
  from inner [OF this] c have "unat (512 - c') < unat (512 - c)" by simp
  then show "((from, c', fi', ti', to'), (from, c, fi, ti, to))
      \<in> measure (\<lambda>(from, c, fi, ti, to). unat (512 - c))"
    by simp
qed

declare convert_outer.simps [simp del]

text \<open>\<^verbatim>\<open>convert(from, to)\<close>: \<open>c\<close> starts at 0 and both pointers at the arrays' first bytes.\<close>

definition convert :: "u8 list \<Rightarrow> u8 list \<Rightarrow> fault + u8 list" where
  "convert from to = convert_outer from 0 0 0 to"

text \<open>
  The wire format in the specification's words, for comparison with \<open>convert\<close>: chunk
  number \<open>k\<close> starts at channel \<open>62 * k\<close>; it is that index as two bytes, low byte first,
  followed by at most 62 channel bytes. A frame is the chunks in order. No decoder exists in
  the source; \<open>decode_frame\<close> is the receiver's reading of this format: each chunk's counter
  says where its channel bytes go.
\<close>

definition le16 :: "nat \<Rightarrow> u8 list" where
  "le16 c = [of_nat (c mod 256), of_nat (c div 256)]"

definition chunk :: "u8 list \<Rightarrow> nat \<Rightarrow> u8 list" where
  "chunk from k = le16 (62 * k) @ take 62 (drop (62 * k) from)"

definition wire_frame :: "u8 list \<Rightarrow> nat \<Rightarrow> u8 list" where
  "wire_frame from n = concat (map (chunk from) [0..<n])"

function decode_loop :: "u8 list \<Rightarrow> u8 list \<Rightarrow> u8 list option" where
  "decode_loop uni [] = Some uni"
| "decode_loop uni [b] = None"
| "decode_loop uni (lo # hi # rest) =
     (let c = unat lo + 256 * unat hi; n = min 62 (512 - c)
      in if 512 \<le> c \<or> length rest < n then None
         else decode_loop (take c uni @ take n rest @ drop (c + n) uni) (drop n rest))"
  by pat_completeness auto
termination
  by (relation "measure (\<lambda>(uni, fr). length fr)") auto

definition decode_frame :: "u8 list \<Rightarrow> u8 list option" where
  "decode_frame fr = decode_loop (replicate 512 0) fr"

section \<open>Single and double precision\<close>

text \<open>
  A \<^verbatim>\<open>float\<close> or \<^verbatim>\<open>double\<close> is the real number it stands for. An arithmetic operation
  computes the exact result and rounds it to the nearest number of the format, a tie going
  to the even significand, as IEEE 754 arithmetic does in its default mode.

  \<open>expo_from n lo x\<close> is the exponent of \<open>x\<close> in a format whose exponents go from \<open>lo\<close> to
  \<open>lo + n\<close>: the largest of them with \<open>2 powi e \<le> \<bar>x\<bar>\<close>, and \<open>lo\<close> for the subnormal
  numbers below \<open>2 powi lo\<close>.
\<close>

primrec expo_from :: "nat \<Rightarrow> int \<Rightarrow> real \<Rightarrow> int" where
  "expo_from 0 lo x = lo"
| "expo_from (Suc n) lo x =
     (if 2 powi (lo + int (Suc n)) \<le> \<bar>x\<bar> then lo + int (Suc n) else expo_from n lo x)"

text \<open>The nearest integer, the even one of two that are equally near.\<close>

definition round_even :: "real \<Rightarrow> int" where
  "round_even y =
     (let f = \<lfloor>y\<rfloor>
      in if y - of_int f < 1 / 2 then f
         else if 1 / 2 < y - of_int f then f + 1
         else if even f then f else f + 1)"

text \<open>
  Rounding to \<open>p\<close> fraction bits: the numbers of the format near \<open>x\<close> are the multiples of
  \<open>2 powi (e - p)\<close>, \<open>e\<close> being the exponent of \<open>x\<close>.
\<close>

definition float_round :: "nat \<Rightarrow> int \<Rightarrow> nat \<Rightarrow> real \<Rightarrow> real" where
  "float_round p lo n x =
     (let q = 2 powi (expo_from n lo x - int p)
      in of_int (round_even (x / q)) * q)"

text \<open>
  \<^verbatim>\<open>float\<close> is binary32: 23 fraction bits, exponents from -126 to 127. \<^verbatim>\<open>double\<close> is
  binary64: 52 fraction bits, exponents from -1022 to 1023.
\<close>

definition binary32 :: "real \<Rightarrow> real" where
  "binary32 x = float_round 23 (- 126) 253 x"

definition binary64 :: "real \<Rightarrow> real" where
  "binary64 x = float_round 52 (- 1022) 2045 x"

text \<open>
  The result of an operation whose exact value is \<open>x\<close>. A rounded value of \<open>2 powi 128\<close> or
  more (\<open>2 powi 1024\<close> for a \<^verbatim>\<open>double\<close>) is an infinity in C; here it is the fault
  \<open>NotFinite\<close>, and so is a division by zero (\<open>DivByZero\<close>): infinities and NaN are not
  values of the model, which does not follow the program beyond the operation that would
  produce one. Zero has no sign in the model.
\<close>

definition to_float :: "real \<Rightarrow> fault + real" where
  "to_float x = (if \<bar>binary32 x\<bar> < 2 powi 128 then Inr (binary32 x) else Inl NotFinite)"

definition to_double :: "real \<Rightarrow> fault + real" where
  "to_double x = (if \<bar>binary64 x\<bar> < 2 powi 1024 then Inr (binary64 x) else Inl NotFinite)"

section \<open>Lights, global parameters and the picture\<close>

text \<open>
  The fields of type \<^verbatim>\<open>float\<close> hold real numbers; every operation on them below rounds
  as above, the product in \<open>store\<close> apart.
\<close>

record led =
  offset_i :: u16
  offset_r :: u16
  offset_g :: u16
  offset_b :: u16
  value_i :: real
  value_r :: real
  value_g :: real
  value_b :: real

definition LED_MAP :: "nat \<Rightarrow> led" where
  "LED_MAP offset = \<lparr>offset_i = of_nat (offset + 7), offset_r = of_nat (offset + 0),
     offset_g = of_nat (offset + 1), offset_b = of_nat (offset + 2),
     value_i = 0, value_r = 0, value_g = 0, value_b = 0\<rparr>"

definition led_map_init :: "led list" where
  "led_map_init = [LED_MAP 99, LED_MAP 108, LED_MAP 117, LED_MAP 126,
     LED_MAP 135, LED_MAP 144, LED_MAP 153, LED_MAP 162]"

definition midi_map :: "u8 list" where
  "midi_map = [
     0, 0, 1 + 0 + 0x80, 1 + 2 + 0x80, 1 + 1 + 0x80,
     1 + 0, 1 + 4, 1 + 1, 1 + 5, 1 + 2, 1 + 6, 1 + 3,
     0, 1 + 7, 1 + 0 + 0x80, 1 + 2 + 0x80, 1 + 1 + 0x80,
     1 + 0, 1 + 4, 1 + 1, 1 + 5, 1 + 2, 1 + 6, 1 + 3,
     0, 1 + 7]"

text \<open>
  \<^verbatim>\<open>picture.h\<close> is not among the sources. What the program uses of it is taken as a
  parameter: \<^verbatim>\<open>width\<close>, \<^verbatim>\<open>height\<close>, and the macro \<^verbatim>\<open>HEADER_PIXEL\<close>, which decodes the
  three colour bytes of the pixel at a byte offset of \<^verbatim>\<open>header_data\<close> and moves the pointer
  on by one pixel of four bytes. A build without \<^verbatim>\<open>HAVE_PICTURE\<close> has no picture.
\<close>

record picture =
  width :: u32
  height :: u32
  header_pixel :: "nat \<Rightarrow> u8 \<times> u8 \<times> u8"

text \<open>
  The variables shared by the threads. \<open>image_data\<close> is the pointer of that name as its
  byte offset from \<^verbatim>\<open>header_data\<close>.
\<close>

record globals =
  led_map :: "led list"
  global_decay :: real
  global_led_gain :: real
  global_spot_gain :: real
  global_pixel_speed :: real
  image_data :: nat
  image_size :: u32
  random_value :: u32

text \<open>The static initialisers, and \<^verbatim>\<open>main\<close>'s two assignments when there is a picture.\<close>

definition globals_init :: "picture option \<Rightarrow> globals" where
  "globals_init cfg = \<lparr>led_map = led_map_init, global_decay = 3, global_led_gain = 0,
     global_spot_gain = 0, global_pixel_speed = 0, image_data = 0,
     image_size = (case cfg of None \<Rightarrow> 0 | Some pic \<Rightarrow> width pic * height pic * 4),
     random_value = 0\<rparr>"

section \<open>Conversions from \<^verbatim>\<open>float\<close>\<close>

text \<open>
  A conversion to an integer type drops the fraction; it is undefined, a fault here, when
  the integer type cannot hold the result.
\<close>

definition c_trunc :: "real \<Rightarrow> int" where
  "c_trunc v = (if 0 \<le> v then \<lfloor>v\<rfloor> else \<lceil>v\<rceil>)"

definition float_to_int :: "real \<Rightarrow> fault + int" where
  "float_to_int v = (if - (2 ^ 31) - 1 < v \<and> v < 2 ^ 31 then Inr (c_trunc v) else Inl ConversionRange)"

definition float_to_unsigned :: "real \<Rightarrow> fault + u32" where
  "float_to_unsigned v = (if - 1 < v \<and> v < 2 ^ 32 then Inr (word_of_int (c_trunc v)) else Inl ConversionRange)"

section \<open>Operations on the lights\<close>

text \<open>
  The right-hand side of
  \<^verbatim>\<open>led_map[which].value_i = (led_map[which].value_i * velocity) / 127.0;\<close>
  as C evaluates it: the product of two \<^verbatim>\<open>float\<close>s in single precision, the division by
  the \<^verbatim>\<open>double\<close> constant in double precision, and the conversion of the quotient to the
  \<^verbatim>\<open>float\<close> it is assigned to.
\<close>

definition scale_intensity :: "real \<Rightarrow> u8 \<Rightarrow> fault + real" where
  "scale_intensity v velocity =
     (case to_float (v * real (unat velocity)) of
        Inl e \<Rightarrow> Inl e
      | Inr p \<Rightarrow>
          (case to_double (p / 127) of
             Inl e \<Rightarrow> Inl e
           | Inr q \<Rightarrow> to_float q))"

definition trigger :: "u8 \<Rightarrow> u8 \<Rightarrow> globals \<Rightarrow> fault + globals" where
  "trigger which velocity g =
     (if LEDS \<le> unat which then Inr g
      else if length (led_map g) \<le> unat which then Inl OutOfBounds
      else
        let velocity = 127 - velocity;
            l = led_map g ! unat which
        in case scale_intensity (value_i l) velocity of
             Inl e \<Rightarrow> Inl e
           | Inr v \<Rightarrow>
               let l = l\<lparr>value_i := v\<rparr>;
                   l = l\<lparr>value_r := 1\<rparr>;
                   l = l\<lparr>value_g := 0\<rparr>;
                   l = l\<lparr>value_b := 0\<rparr>
               in Inr (g\<lparr>led_map := (led_map g)[unat which := l]\<rparr>))"

text \<open>
  \<^verbatim>\<open>store(value, ptr, max)\<close>, the pointer being an array and an index into it. The
  product \<^verbatim>\<open>max * value\<close> is taken exactly: for the maximum 255 and a value that is
  a \<^verbatim>\<open>float\<close>, rounding the product does not change the integer that is stored
  (lemma \<open>store_product\<close>).
\<close>

definition store :: "real \<Rightarrow> u8 list \<Rightarrow> nat \<Rightarrow> real \<Rightarrow> fault + u8 list" where
  "store v buf ptr mx =
     (let v = (if v > 1 then 1 else if v < 0 then 0 else v)
      in case float_to_int (mx * v) of
           Inl e \<Rightarrow> Inl e
         | Inr n \<Rightarrow> if ptr < length buf then Inr (buf[ptr := word_of_int n]) else Inl OutOfBounds)"

definition store_led :: "u8 \<Rightarrow> u8 list \<Rightarrow> globals \<Rightarrow> fault + u8 list" where
  "store_led which buf g =
     (if length (led_map g) \<le> unat which then Inl OutOfBounds
      else
        let l = led_map g ! unat which
        in case to_float (value_i l * global_led_gain g) of
             Inl e \<Rightarrow> Inl e
           | Inr vi \<Rightarrow>
        (case store vi buf (unat (offset_i l)) 255 of
             Inl e \<Rightarrow> Inl e
           | Inr b1 \<Rightarrow>
        (case store (value_r l) b1 (unat (offset_r l)) 255 of
             Inl e \<Rightarrow> Inl e
           | Inr b2 \<Rightarrow>
        (case store (value_g l) b2 (unat (offset_g l)) 255 of
             Inl e \<Rightarrow> Inl e
           | Inr b3 \<Rightarrow> store (value_b l) b3 (unat (offset_b l)) 255))))"

text \<open>
  One statement of \<open>update\<close>, \<^verbatim>\<open>value += (target - value) / global_decay;\<close>, on the
  value \<open>v\<close> with the decay constant \<open>k\<close>: a subtraction, a division and an addition of
  \<^verbatim>\<open>float\<close>s, each rounded.
\<close>

definition decay_step :: "real \<Rightarrow> real \<Rightarrow> real \<Rightarrow> fault + real" where
  "decay_step k target v =
     (case to_float (target - v) of
        Inl e \<Rightarrow> Inl e
      | Inr d \<Rightarrow>
          (case to_float (d / k) of
             Inl e \<Rightarrow> Inl e
           | Inr q \<Rightarrow> to_float (v + q)))"

text \<open>The value that \<open>decay_step\<close> returns when none of its operations overflows.\<close>

definition decay_value :: "real \<Rightarrow> real \<Rightarrow> real \<Rightarrow> real" where
  "decay_value k target v = binary32 (v + binary32 (binary32 (target - v) / k))"

definition update :: "u8 \<Rightarrow> real \<Rightarrow> real \<Rightarrow> real \<Rightarrow> real \<Rightarrow> globals \<Rightarrow> fault + globals" where
  "update which i r g b st =
     (if length (led_map st) \<le> unat which then Inl OutOfBounds
      else if global_decay st = 0 then Inl DivByZero
      else
        let l = led_map st ! unat which
        in case decay_step (global_decay st) i (value_i l) of
             Inl e \<Rightarrow> Inl e
           | Inr vi \<Rightarrow>
        (case decay_step (global_decay st) r (value_r l) of
             Inl e \<Rightarrow> Inl e
           | Inr vr \<Rightarrow>
        (case decay_step (global_decay st) g (value_g l) of
             Inl e \<Rightarrow> Inl e
           | Inr vg \<Rightarrow>
        (case decay_step (global_decay st) b (value_b l) of
             Inl e \<Rightarrow> Inl e
           | Inr vb \<Rightarrow>
               let l = l\<lparr>value_i := vi, value_r := vr, value_g := vg, value_b := vb\<rparr>
               in Inr (st\<lparr>led_map := (led_map st)[unat which := l]\<rparr>)))))"

text \<open>
  \<^verbatim>\<open>unsigned w_rand = (arc4random() % width) * global_pixel_speed;\<close> on the reduced
  random number \<open>d\<close>: it is converted to \<^verbatim>\<open>float\<close>, which rounds it when it has more than
  24 bits, multiplied in single precision, and converted back.
\<close>

definition scale_draw :: "u32 \<Rightarrow> real \<Rightarrow> fault + u32" where
  "scale_draw d speed =
     (case to_float (real (unat d)) of
        Inl e \<Rightarrow> Inl e
      | Inr f \<Rightarrow>
          (case to_float (f * speed) of
             Inl e \<Rightarrow> Inl e
           | Inr p \<Rightarrow> float_to_unsigned p))"

text \<open>
  \<^verbatim>\<open>update_pixel_speed()\<close>; the two results of \<^verbatim>\<open>arc4random()\<close> are the arguments
  \<open>r1\<close> and \<open>r2\<close>. Without a picture the body is empty.
\<close>

definition update_pixel_speed :: "picture option \<Rightarrow> u32 \<Rightarrow> u32 \<Rightarrow> globals \<Rightarrow> fault + globals" where
  "update_pixel_speed cfg r1 r2 g =
     (case cfg of
        None \<Rightarrow> Inr g
      | Some pic \<Rightarrow>
          if width pic = 0 \<or> height pic = 0 then Inl DivByZero
          else
            case scale_draw (r1 mod width pic) (global_pixel_speed g) of
              Inl e \<Rightarrow> Inl e
            | Inr w_rand \<Rightarrow>
            (case scale_draw (r2 mod height pic) (global_pixel_speed g) of
              Inl e \<Rightarrow> Inl e
            | Inr h_rand \<Rightarrow>
                if image_size g div 4 = 0 then Inl DivByZero
                else
                  let v = (w_rand + h_rand * width pic) mod (image_size g div 4)
                  in Inr (g\<lparr>random_value := 4 * v\<rparr>)))"

text \<open>\<open>update\<close> applied \<open>n\<close> times with the same target, as \<open>n\<close> frames with an unchanging pixel do.\<close>

fun update_repeat :: "nat \<Rightarrow> u8 \<Rightarrow> real \<Rightarrow> real \<Rightarrow> real \<Rightarrow> real \<Rightarrow> globals \<Rightarrow> fault + globals" where
  "update_repeat 0 which i r g b st = Inr st"
| "update_repeat (Suc n) which i r g b st =
     (case update which i r g b st of
        Inl e \<Rightarrow> Inl e
      | Inr st' \<Rightarrow> update_repeat n which i r g b st')"

section \<open>The render loop \<open>usb_write_loop\<close>\<close>

text \<open>
  \<^verbatim>\<open>while ((p - header_data) >= image_size) p -= image_size;\<close> on the offset of \<open>p\<close>.
  With \<open>image_size = 0\<close> the loop never ends, which is the value \<open>None\<close>.
\<close>

partial_function (option) wrap_offset :: "nat \<Rightarrow> nat \<Rightarrow> nat option" where
  "wrap_offset off sz = (if sz \<le> off then wrap_offset (off - sz) sz else Some off)"

text \<open>
  The local variables of \<open>usb_write_loop\<close>. \<open>pixels\<close> is left out: each entry is written by
  \<^verbatim>\<open>HEADER_PIXEL\<close> immediately before its only use. Two fields are not in the source and
  only observe it: \<open>slept_usec\<close> adds up the arguments of \<^verbatim>\<open>usleep\<close>, and \<open>recomputed\<close>
  counts the calls of \<open>update_pixel_speed\<close> made by the loop.
\<close>

record write_loop =
  buffer :: "u8 list"
  martin :: "u8 list"
  counter :: u32
  timeout :: u8
  slept_usec :: nat
  recomputed :: nat

definition write_loop_init :: write_loop where
  "write_loop_init = \<lparr>buffer = replicate 512 0, martin = replicate 530 0, counter = 0,
     timeout = 3, slept_usec = 0, recomputed = 0\<rparr>"

text \<open>\<^verbatim>\<open>image_data += random_value;\<close> and the wrap, with a picture only.\<close>

definition advance_image :: "picture option \<Rightarrow> globals \<Rightarrow> fault + globals" where
  "advance_image cfg g =
     (case cfg of
        None \<Rightarrow> Inr g
      | Some pic \<Rightarrow>
          (case wrap_offset (image_data g + unat (random_value g)) (unat (image_size g)) of
             None \<Rightarrow> Inl Hang
           | Some off \<Rightarrow> Inr (g\<lparr>image_data := off\<rparr>)))"

text \<open>
  \<^verbatim>\<open>for (unsigned x = SPOT_START; x != SPOT_END; x++) store(global_spot_gain, buffer + x, 255);\<close>
  over the list of the values of \<open>x\<close>.
\<close>

fun store_spots :: "nat list \<Rightarrow> globals \<Rightarrow> u8 list \<Rightarrow> fault + u8 list" where
  "store_spots [] g buf = Inr buf"
| "store_spots (x # xs) g buf =
     (case store (global_spot_gain g) buf x 255 of
        Inl e \<Rightarrow> Inl e
      | Inr buf' \<Rightarrow> store_spots xs g buf')"

text \<open>
  The four arguments that the loop passes to \<open>update\<close> for a pixel, their divisions being
  made in single precision: \<^verbatim>\<open>(p0 + p1 + p2) / (255.0f * 3.0f)\<close> and the three
  \<^verbatim>\<open>p / 255.0f\<close>.
\<close>

definition pixel_targets :: "u8 \<times> u8 \<times> u8 \<Rightarrow> fault + (real \<times> real \<times> real \<times> real)" where
  "pixel_targets px =
     (case px of (p0, p1, p2) \<Rightarrow>
        (case to_float (real (unat p0 + unat p1 + unat p2) / (255 * 3)) of
           Inl e \<Rightarrow> Inl e
         | Inr i \<Rightarrow>
        (case to_float (real (unat p0) / 255) of
           Inl e \<Rightarrow> Inl e
         | Inr r \<Rightarrow>
        (case to_float (real (unat p1) / 255) of
           Inl e \<Rightarrow> Inl e
         | Inr g \<Rightarrow>
        (case to_float (real (unat p2) / 255) of
           Inl e \<Rightarrow> Inl e
         | Inr b \<Rightarrow> Inr (i, r, g, b))))))"

text \<open>
  The body of \<^verbatim>\<open>for (unsigned x = 0; x != LEDS; x++)\<close>: wrap \<open>image_ptr\<close>, read a pixel
  (which moves \<open>image_ptr\<close> four bytes on), \<open>update\<close> light \<open>x\<close> and store it.
\<close>

definition led_iter ::
  "picture \<Rightarrow> nat \<Rightarrow> nat \<times> u8 list \<times> globals \<Rightarrow> fault + (nat \<times> u8 list \<times> globals)" where
  "led_iter pic x st =
     (case st of (image_ptr, buf, g) \<Rightarrow>
        (case wrap_offset image_ptr (unat (image_size g)) of
           None \<Rightarrow> Inl Hang
         | Some p \<Rightarrow>
             (case pixel_targets (header_pixel pic p) of
                Inl e \<Rightarrow> Inl e
              | Inr (ti, tr, tg, tb) \<Rightarrow>
                (case update (of_nat x) ti tr tg tb g of
                   Inl e \<Rightarrow> Inl e
                 | Inr g' \<Rightarrow>
                     (case store_led (of_nat x) buf g' of
                        Inl e \<Rightarrow> Inl e
                      | Inr buf' \<Rightarrow> Inr (p + 4, buf', g'))))))"

fun led_loop ::
  "picture \<Rightarrow> nat list \<Rightarrow> nat \<times> u8 list \<times> globals \<Rightarrow> fault + (nat \<times> u8 list \<times> globals)" where
  "led_loop pic [] st = Inr st"
| "led_loop pic (x # xs) st =
     (case led_iter pic x st of
        Inl e \<Rightarrow> Inl e
      | Inr st' \<Rightarrow> led_loop pic xs st')"

definition render_leds :: "picture option \<Rightarrow> u8 list \<Rightarrow> globals \<Rightarrow> fault + (u8 list \<times> globals)" where
  "render_leds cfg buf g =
     (case cfg of
        None \<Rightarrow> Inr (buf, g)
      | Some pic \<Rightarrow>
          (case led_loop pic [0..<LEDS] (image_data g, buf, g) of
             Inl e \<Rightarrow> Inl e
           | Inr (image_ptr, buf', g') \<Rightarrow> Inr (buf', g')))"

text \<open>\<^verbatim>\<open>if (++counter == 30 * FPS) { counter = 0; update_pixel_speed(); }\<close>\<close>

definition count_tick ::
  "picture option \<Rightarrow> u32 \<Rightarrow> u32 \<Rightarrow> write_loop \<Rightarrow> globals \<Rightarrow> fault + (write_loop \<times> globals)" where
  "count_tick cfg r1 r2 w g =
     (let w = w\<lparr>counter := counter w + 1\<rparr>
      in if counter w = of_nat (30 * FPS) then
           (case update_pixel_speed cfg r1 r2 g of
              Inl e \<Rightarrow> Inl e
            | Inr g' \<Rightarrow> Inr (w\<lparr>counter := 0, recomputed := recomputed w + 1\<rparr>, g'))
         else Inr (w, g))"

text \<open>
  One pass of \<^verbatim>\<open>while (1)\<close>. Its inputs are whether \<^verbatim>\<open>usb_bulk_write\<close> succeeded
  (returned at least 0) and the two random numbers a recomputation would draw. The result's
  first component says whether the pass left the loop by \<^verbatim>\<open>break\<close>.
\<close>

definition usb_write_iter ::
  "picture option \<Rightarrow> bool \<times> u32 \<times> u32 \<Rightarrow> write_loop \<times> globals \<Rightarrow> fault + (bool \<times> write_loop \<times> globals)" where
  "usb_write_iter cfg inp st =
     (case inp of (sent, r1, r2) \<Rightarrow> case st of (w, g) \<Rightarrow>
        (case convert (buffer w) (martin w) of
           Inl e \<Rightarrow> Inl e
         | Inr m \<Rightarrow>
             let w = w\<lparr>martin := m\<rparr>
             in if \<not> sent \<and> timeout w = 0 then Inr (True, w\<lparr>timeout := timeout w - 1\<rparr>, g)
                else
                  let w = w\<lparr>timeout := (if sent then 3 else timeout w - 1)\<rparr>;
                      w = w\<lparr>slept_usec := slept_usec w + 1000000 div FPS\<rparr>
                  in case advance_image cfg g of
                       Inl e \<Rightarrow> Inl e
                     | Inr g \<Rightarrow>
                  (case store_spots [SPOT_START..<SPOT_END] g (buffer w) of
                       Inl e \<Rightarrow> Inl e
                     | Inr buf \<Rightarrow>
                  (case render_leds cfg buf g of
                       Inl e \<Rightarrow> Inl e
                     | Inr (buf, g) \<Rightarrow>
                  (case count_tick cfg r1 r2 (w\<lparr>buffer := buf\<rparr>) g of
                       Inl e \<Rightarrow> Inl e
                     | Inr (w, g) \<Rightarrow> Inr (False, w, g))))))"

text \<open>
  The loop over a finite sequence of inputs: it stops at a fault and at \<^verbatim>\<open>break\<close>, after
  which the thread returns and reads no further input.
\<close>

fun usb_write_loop ::
  "picture option \<Rightarrow> (bool \<times> u32 \<times> u32) list \<Rightarrow> write_loop \<times> globals \<Rightarrow> fault + (bool \<times> write_loop \<times> globals)" where
  "usb_write_loop cfg [] st = Inr (False, st)"
| "usb_write_loop cfg (inp # inps) st =
     (case usb_write_iter cfg inp st of
        Inl e \<Rightarrow> Inl e
      | Inr (True, st') \<Rightarrow> Inr (True, st')
      | Inr (False, st') \<Rightarrow> usb_write_loop cfg inps st')"

section \<open>The event dispatcher \<open>alsa_read_loop\<close>\<close>

text \<open>
  The events of the sequencer with the fields the program reads, in their C types:
  \<open>NOTEON channel note velocity\<close>, \<open>CONTROLLER param value\<close>, and any other type.
\<close>

datatype event = NOTEON u8 u8 u8 | CONTROLLER u32 s32 | OTHER

text \<open>
  The right-hand side \<^verbatim>\<open>ev->data.control.value / 127.0\<close> of the three gain assignments:
  the \<^verbatim>\<open>int\<close> becomes a \<^verbatim>\<open>double\<close>, which holds it exactly, the division is made in
  double precision, and the quotient is converted to the \<^verbatim>\<open>float\<close> it is assigned to.
\<close>

definition control_ratio :: "s32 \<Rightarrow> fault + real" where
  "control_ratio v =
     (case to_double (real_of_int (sint v) / 127) of
        Inl e \<Rightarrow> Inl e
      | Inr q \<Rightarrow> to_float q)"

text \<open>
  In \<^verbatim>\<open>global_decay = ev->data.control.value + 1;\<close> the sum is an \<^verbatim>\<open>int\<close>, whose
  overflow is undefined, and its conversion to \<^verbatim>\<open>float\<close> rounds it when it has more than
  24 bits.
\<close>

definition alsa_event :: "picture option \<Rightarrow> u32 \<Rightarrow> u32 \<Rightarrow> event \<Rightarrow> globals \<Rightarrow> fault + globals" where
  "alsa_event cfg r1 r2 ev g =
     (case ev of
        NOTEON channel note velocity \<Rightarrow>
          if channel \<noteq> 0 \<or> unat note < NOTE_START \<or> NOTE_END \<le> unat note then Inr g
          else if length midi_map \<le> unat note - NOTE_START then Inl OutOfBounds
          else if midi_map ! (unat note - NOTE_START) = 0 then Inr g
          else trigger (midi_map ! (unat note - NOTE_START) - 1) velocity g
      | CONTROLLER param v \<Rightarrow>
          if param = 114 then
            (case control_ratio v of
               Inl e \<Rightarrow> Inl e
             | Inr x \<Rightarrow> Inr (g\<lparr>global_led_gain := x\<rparr>))
          else if param = 117 then
            (case control_ratio v of
               Inl e \<Rightarrow> Inl e
             | Inr x \<Rightarrow> Inr (g\<lparr>global_spot_gain := x\<rparr>))
          else if param = 116 then
            (case control_ratio v of
               Inl e \<Rightarrow> Inl e
             | Inr x \<Rightarrow> update_pixel_speed cfg r1 r2 (g\<lparr>global_pixel_speed := x\<rparr>))
          else if param = 113 then
            (if sint v = 2 ^ 31 - 1 then Inl IntOverflow
             else
               case to_float (real_of_int (sint v + 1)) of
                 Inl e \<Rightarrow> Inl e
               | Inr x \<Rightarrow> Inr (g\<lparr>global_decay := x\<rparr>))
          else Inr g
      | OTHER \<Rightarrow> Inr g)"

text \<open>The loop over the events received, each with the random numbers it would draw.\<close>

fun alsa_read_loop :: "picture option \<Rightarrow> (event \<times> u32 \<times> u32) list \<Rightarrow> globals \<Rightarrow> fault + globals" where
  "alsa_read_loop cfg [] g = Inr g"
| "alsa_read_loop cfg ((ev, r1, r2) # evs) g =
     (case alsa_event cfg r1 r2 ev g of
        Inl e \<Rightarrow> Inl e
      | Inr g' \<Rightarrow> alsa_read_loop cfg evs g')"

section \<open>The two threads together\<close>

text \<open>
  The threads share the globals without locks. Their interleaving is taken at the grain of
  whole steps: an action is one event handled by \<open>alsa_read_loop\<close> or one pass of
  \<open>usb_write_loop\<close>, in any order. The flag in the state says that the render loop has
  left by \<^verbatim>\<open>break\<close>; from then on it makes no pass.
\<close>

datatype action = Event event u32 u32 | Render bool u32 u32

fun system_step ::
  "picture option \<Rightarrow> action \<Rightarrow> bool \<times> write_loop \<times> globals \<Rightarrow> fault + (bool \<times> write_loop \<times> globals)" where
  "system_step cfg (Event ev r1 r2) (halted, w, g) =
     (case alsa_event cfg r1 r2 ev g of
        Inl e \<Rightarrow> Inl e
      | Inr g' \<Rightarrow> Inr (halted, w, g'))"
| "system_step cfg (Render sent r1 r2) (halted, w, g) =
     (if halted then Inr (halted, w, g) else usb_write_iter cfg (sent, r1, r2) (w, g))"

fun system_run ::
  "picture option \<Rightarrow> action list \<Rightarrow> bool \<times> write_loop \<times> globals \<Rightarrow> fault + (bool \<times> write_loop \<times> globals)" where
  "system_run cfg [] st = Inr st"
| "system_run cfg (a # as) st =
     (case system_step cfg a st of
        Inl e \<Rightarrow> Inl e
      | Inr st' \<Rightarrow> system_run cfg as st')"

text \<open>The four values of a light and of a target, by channel.\<close>

datatype channel = Intensity | Red | Green | Blue

fun value_of :: "channel \<Rightarrow> led \<Rightarrow> real" where
  "value_of Intensity l = value_i l"
| "value_of Red l = value_r l"
| "value_of Green l = value_g l"
| "value_of Blue l = value_b l"

fun target_of :: "channel \<Rightarrow> real \<Rightarrow> real \<Rightarrow> real \<Rightarrow> real \<Rightarrow> real" where
  "target_of Intensity i r g b = i"
| "target_of Red i r g b = r"
| "target_of Green i r g b = g"
| "target_of Blue i r g b = b"

text \<open>
  The four offsets of a light. They are set by the initialiser of \<open>led_map\<close> and no
  function assigns them.
\<close>

definition offsets_of :: "led \<Rightarrow> nat list" where
  "offsets_of l = [unat (offset_i l), unat (offset_r l), unat (offset_g l), unat (offset_b l)]"

text \<open>The cells of the universe that belong to the lights.\<close>

definition led_cells :: "globals \<Rightarrow> nat set" where
  "led_cells g = (\<Union>l \<in> set (led_map g). set (offsets_of l))"

text \<open>
  The values of the lights lie between 0 and 1 up to rounding. \<open>lights_in_range\<close> is an
  interval around that range which \<open>update\<close> does not leave.
\<close>

definition lights_in_range :: "globals \<Rightarrow> bool" where
  "lights_in_range g \<longleftrightarrow>
     (\<forall>l \<in> set (led_map g). \<forall>ch \<in> {Intensity, Red, Green, Blue}.
        - 1 \<le> value_of ch l \<and> value_of ch l \<le> 2)"

text \<open>
  What a pass of the render loop relies on: the sizes of its two arrays and, with a
  picture, the lights' offsets as initialised, their values in range, a decay constant
  from 1 to \<open>2 ^ 22\<close> (the events set it from 1 to 128), a LED gain that is not huge, a
  picture of at least one pixel whose width and height a \<^verbatim>\<open>float\<close> holds exactly, and a
  pixel speed from 0 to 1. Under these no operation of the pass leaves the finite numbers
  and no conversion leaves its integer type.
\<close>

definition render_ready :: "picture option \<Rightarrow> write_loop \<Rightarrow> globals \<Rightarrow> bool" where
  "render_ready cfg w g \<longleftrightarrow>
     length (buffer w) = 512 \<and> length (martin w) = 530 \<and>
     (case cfg of
        None \<Rightarrow> True
      | Some pic \<Rightarrow>
          map offsets_of (led_map g) = map offsets_of led_map_init \<and> lights_in_range g \<and>
          1 \<le> global_decay g \<and> global_decay g \<le> 2 ^ 22 \<and> \<bar>global_led_gain g\<bar> \<le> 2 ^ 32 \<and>
          width pic \<noteq> 0 \<and> height pic \<noteq> 0 \<and>
          unat (width pic) \<le> 2 ^ 24 \<and> unat (height pic) \<le> 2 ^ 24 \<and>
          image_size g div 4 \<noteq> 0 \<and>
          0 \<le> global_pixel_speed g \<and> global_pixel_speed g \<le> 1)"

section \<open>Rounding: range, error and evaluation\<close>

lemma expo_from_le: "expo_from n lo x = lo \<or> 2 powi (expo_from n lo x) \<le> \<bar>x\<bar>"
  by (induction n) auto

lemma powi_less_imp: "(2 :: real) powi a \<le> x \<Longrightarrow> x < 2 powi b \<Longrightarrow> a < b"
proof -
  assume "(2 :: real) powi a \<le> x" "x < 2 powi b"
  then have lt: "(2 :: real) powi a < 2 powi b" by simp
  show "a < b"
  proof (rule ccontr)
    assume "\<not> a < b"
    then have "(2 :: real) powi b \<le> 2 powi a" by (intro power_int_increasing) simp_all
    with lt show False by simp
  qed
qed

lemma powi_le_imp: "(2 :: real) powi a \<le> 2 powi b \<Longrightarrow> a \<le> b"
proof (rule ccontr)
  assume le: "(2 :: real) powi a \<le> 2 powi b" and "\<not> a \<le> b"
  then have "(2 :: real) powi b < 2 powi a" by (intro power_int_strict_increasing) simp_all
  with le show False by simp
qed

lemma expo_from_below:
  assumes "\<bar>x\<bar> < 2 powi E" and "lo < E"
  shows "expo_from n lo x < E"
  using expo_from_le [of n lo x] assms powi_less_imp [of "expo_from n lo x" "\<bar>x\<bar>" E] by auto

lemma expo_from_at_most:
  assumes "\<bar>x\<bar> \<le> 2 powi E" and "lo \<le> E"
  shows "expo_from n lo x \<le> E"
proof -
  from expo_from_le [of n lo x] show ?thesis
  proof
    assume "expo_from n lo x = lo"
    with assms show ?thesis by simp
  next
    assume "2 powi (expo_from n lo x) \<le> \<bar>x\<bar>"
    with assms have "(2 :: real) powi (expo_from n lo x) \<le> 2 powi E" by simp
    then show ?thesis by (rule powi_le_imp)
  qed
qed

lemma expo_from_eq:
  "lo \<le> e \<Longrightarrow> e \<le> lo + int n \<Longrightarrow> 2 powi e \<le> \<bar>x\<bar> \<Longrightarrow> \<bar>x\<bar> < 2 powi (e + 1) \<Longrightarrow>
   expo_from n lo x = e"
proof (induction n)
  case 0
  then show ?case by simp
next
  case (Suc n)
  show ?case
  proof (cases "2 powi (lo + int (Suc n)) \<le> \<bar>x\<bar>")
    case True
    from True Suc.prems(4) have "lo + int (Suc n) < e + 1" by (rule powi_less_imp)
    with Suc.prems(2) True show ?thesis by simp
  next
    case False
    with Suc.prems(3) have "e \<noteq> lo + int (Suc n)" by auto
    with Suc.prems(2) have "e \<le> lo + int n" by simp
    with Suc False show ?thesis by simp
  qed
qed

lemma round_even_error: "\<bar>of_int (round_even y) - y\<bar> \<le> 1 / 2"
  unfolding round_even_def Let_def by (auto simp: abs_if) linarith+

lemma round_even_ge: "of_int n \<le> y \<Longrightarrow> n \<le> round_even y"
proof -
  assume "of_int n \<le> y"
  then have "n \<le> \<lfloor>y\<rfloor>" by (simp add: le_floor_iff)
  then show ?thesis unfolding round_even_def Let_def by auto
qed

lemma round_even_le: "y \<le> of_int n \<Longrightarrow> round_even y \<le> n"
proof -
  assume a: "y \<le> of_int n"
  show ?thesis
  proof (cases "y = of_int n")
    case True
    then show ?thesis by (simp add: round_even_def)
  next
    case False
    with a have "y < of_int n" by simp
    then have "\<lfloor>y\<rfloor> < n" by (simp add: floor_less_iff)
    then have "\<lfloor>y\<rfloor> + 1 \<le> n" by simp
    then show ?thesis
      unfolding round_even_def Let_def by auto
  qed
qed

lemma round_even_of_int: "round_even (of_int n) = n"
  by (simp add: round_even_def)

lemma powi_nat: "0 \<le> k \<Longrightarrow> (2 :: real) powi k = of_int (2 ^ nat k)"
  by (simp add: power_int_def)

text \<open>A number on the grid of its own exponent is not changed by rounding.\<close>

lemma float_round_grid:
  fixes x :: real
  assumes "x = of_int m * 2 powi (expo_from n lo x - int p)"
  shows "float_round p lo n x = x"
proof -
  let ?q = "(2 :: real) powi (expo_from n lo x - int p)"
  have q: "0 < ?q" by simp
  from assms have "x / ?q = of_int m" by (simp add: field_simps)
  then have "float_round p lo n x = of_int m * ?q"
    by (simp add: float_round_def Let_def round_even_of_int)
  with assms show ?thesis by simp
qed

lemma float_round_abs_le:
  assumes "\<bar>x\<bar> \<le> 2 powi E" and "lo \<le> E"
  shows "\<bar>float_round p lo n x\<bar> \<le> 2 powi E"
proof -
  let ?e = "expo_from n lo x"
  let ?q = "(2 :: real) powi (?e - int p)"
  let ?N = "(2 :: int) ^ nat (E - ?e + int p)"
  have q: "0 < ?q" by simp
  from assms have e: "?e \<le> E" by (rule expo_from_at_most)
  then have "(2 :: real) powi (E - ?e + int p) = of_int ?N" by (intro powi_nat) simp
  moreover have "(2 :: real) powi E = 2 powi (E - ?e + int p) * ?q"
    by (simp add: power_int_add [symmetric])
  ultimately have N: "(2 :: real) powi E = of_int ?N * ?q" by simp
  from assms(1) have "x \<le> 2 powi E" "- (2 powi E) \<le> x" by simp_all
  with N q have "x / ?q \<le> of_int ?N" "of_int (- ?N) \<le> x / ?q"
    by (simp_all add: field_simps)
  then have "round_even (x / ?q) \<le> ?N" "- ?N \<le> round_even (x / ?q)"
    by (auto intro: round_even_le round_even_ge)
  then have "\<bar>round_even (x / ?q)\<bar> \<le> ?N" by simp
  then have "\<bar>real_of_int (round_even (x / ?q))\<bar> \<le> of_int ?N"
    by (metis of_int_abs of_int_le_iff)
  then have "\<bar>of_int (round_even (x / ?q)) * ?q\<bar> \<le> of_int ?N * ?q"
    using q by (simp add: abs_mult)
  with N show ?thesis by (simp add: float_round_def Let_def)
qed

lemma float_round_nonneg: "0 \<le> x \<Longrightarrow> 0 \<le> float_round p lo n x"
proof -
  assume "0 \<le> x"
  then have "of_int 0 \<le> x / 2 powi (expo_from n lo x - int p)" by simp
  then have "0 \<le> round_even (x / 2 powi (expo_from n lo x - int p))" by (rule round_even_ge)
  then show ?thesis by (simp add: float_round_def Let_def)
qed

lemma float_round_half:
  "\<bar>float_round p lo n x - x\<bar> \<le> 2 powi (expo_from n lo x - int p) / 2"
proof -
  let ?q = "(2 :: real) powi (expo_from n lo x - int p)"
  have q: "0 < ?q" by simp
  have "float_round p lo n x - x = (of_int (round_even (x / ?q)) - x / ?q) * ?q"
    using q by (simp add: float_round_def Let_def field_simps)
  then have "\<bar>float_round p lo n x - x\<bar> = \<bar>of_int (round_even (x / ?q)) - x / ?q\<bar> * ?q"
    using q by (simp add: abs_mult)
  also have "\<dots> \<le> (1 / 2) * ?q"
    using q round_even_error [of "x / ?q"] by (intro mult_right_mono) simp_all
  finally show ?thesis by simp
qed

text \<open>
  The rounding error of a number of magnitude at most \<open>2 powi E\<close> is at most half the
  distance of the numbers of the format below \<open>2 powi E\<close>.
\<close>

lemma float_round_error:
  assumes "\<bar>x\<bar> \<le> 2 powi E" and "lo < E"
  shows "\<bar>float_round p lo n x - x\<bar> \<le> 2 powi (E - int p - 2)"
proof (cases "\<bar>x\<bar> < 2 powi E")
  case True
  with assms(2) have "expo_from n lo x < E" by (intro expo_from_below)
  then have "(2 :: real) powi (expo_from n lo x - int p) \<le> 2 powi (E - int p - 1)"
    by (intro power_int_increasing) simp_all
  moreover have "(2 :: real) powi (E - int p - 1) = 2 * 2 powi (E - int p - 2)"
    by (simp add: power_int_diff)
  ultimately show ?thesis using float_round_half [of p lo n x] by simp
next
  case False
  with assms(1) have eq: "\<bar>x\<bar> = 2 powi E" by simp
  let ?e = "expo_from n lo x"
  from assms have e: "?e \<le> E" by (intro expo_from_at_most) simp_all
  then have k: "(2 :: real) powi (E - ?e + int p) = of_int (2 ^ nat (E - ?e + int p))"
    by (intro powi_nat) simp
  have split: "(2 :: real) powi E = 2 powi (E - ?e + int p) * 2 powi (?e - int p)"
    by (simp add: power_int_add [symmetric])
  have "\<exists>m. x = of_int m * 2 powi (?e - int p)"
  proof (cases "0 \<le> x")
    case True
    with eq split k have "x = of_int (2 ^ nat (E - ?e + int p)) * 2 powi (?e - int p)" by simp
    then show ?thesis ..
  next
    case False
    with eq split k have "x = of_int (- (2 ^ nat (E - ?e + int p))) * 2 powi (?e - int p)"
      by simp
    then show ?thesis ..
  qed
  then obtain m where "x = of_int m * 2 powi (?e - int p)" ..
  then have "float_round p lo n x = x" by (rule float_round_grid)
  then show ?thesis by simp
qed

text \<open>An integer of at most \<open>p + 1\<close> bits is a number of the format.\<close>

lemma float_round_of_int:
  assumes "\<bar>of_int m :: real\<bar> < 2 powi (int p + 1)" and "lo \<le> int p"
  shows "float_round p lo n (of_int m) = of_int m"
proof -
  let ?e = "expo_from n lo (of_int m)"
  from assms have "?e < int p + 1" by (intro expo_from_below) simp_all
  then have k: "(2 :: real) powi (int p - ?e) = of_int (2 ^ nat (int p - ?e))"
    by (intro powi_nat) simp
  have "(1 :: real) = 2 powi (int p - ?e) * 2 powi (?e - int p)"
    by (simp add: power_int_add [symmetric])
  with k have "(of_int m :: real) = of_int (m * 2 ^ nat (int p - ?e)) * 2 powi (?e - int p)"
    by (simp add: mult.assoc)
  then show ?thesis by (rule float_round_grid)
qed

text \<open>The value of a rounding, given the exponent of its argument.\<close>

lemma float_round_at:
  assumes "lo \<le> e" and "e \<le> lo + int n" and "2 powi e \<le> \<bar>x\<bar>" and "\<bar>x\<bar> < 2 powi (e + 1)"
  shows "float_round p lo n x = of_int (round_even (x / 2 powi (e - int p))) * 2 powi (e - int p)"
  using expo_from_eq [OF assms] by (simp add: float_round_def Let_def)

lemma binary32_at:
  assumes "- 126 \<le> e" and "e \<le> 127" and "2 powi e \<le> \<bar>x\<bar>" and "\<bar>x\<bar> < 2 powi (e + 1)"
  shows "binary32 x = of_int (round_even (x / 2 powi (e - 23))) * 2 powi (e - 23)"
  unfolding binary32_def using float_round_at [of "- 126" e 253 x 23] assms by simp


lemma binary32_zero [simp]: "binary32 0 = 0"
  by (simp add: binary32_def float_round_def round_even_def)

lemma binary32_abs_le: "\<bar>x\<bar> \<le> 2 ^ E \<Longrightarrow> \<bar>binary32 x\<bar> \<le> 2 ^ E"
  unfolding binary32_def using float_round_abs_le [of x "int E" "- 126" 23 253]
  by (simp add: power_int_of_nat)


lemma binary32_nonneg: "0 \<le> x \<Longrightarrow> 0 \<le> binary32 x"
  unfolding binary32_def by (rule float_round_nonneg)


lemma binary32_error: "\<bar>x\<bar> \<le> 2 ^ E \<Longrightarrow> \<bar>binary32 x - x\<bar> \<le> 2 ^ E / 2 ^ 25"
proof -
  assume "\<bar>x\<bar> \<le> 2 ^ E"
  then have "\<bar>float_round 23 (- 126) 253 x - x\<bar> \<le> 2 powi (int E - int 23 - 2)"
    by (intro float_round_error) (simp_all add: power_int_of_nat)
  moreover have "(2 :: real) powi (int E - int 23 - 2) = 2 powi (int E) / 2 powi 25"
    using power_int_diff [of "2 :: real" "int E" 25] by simp
  ultimately show ?thesis by (simp add: binary32_def power_int_of_nat)
qed


lemma binary32_of_nat: "n < 2 ^ 24 \<Longrightarrow> binary32 (real n) = real n"
proof -
  assume "n < 2 ^ 24"
  then have "real n < real (2 ^ 24)" by (simp only: of_nat_less_iff)
  then have "\<bar>of_int (int n) :: real\<bar> < 2 powi (int 23 + 1)" by simp
  then have "float_round 23 (- 126) 253 (of_int (int n)) = of_int (int n)"
    by (rule float_round_of_int) simp
  then show ?thesis by (simp add: binary32_def)
qed

lemma to_float_finite: "\<bar>x\<bar> \<le> 2 ^ E \<Longrightarrow> E \<le> 127 \<Longrightarrow> to_float x = Inr (binary32 x)"
proof -
  assume x: "\<bar>x\<bar> \<le> 2 ^ E" and E: "E \<le> 127"
  from x have "\<bar>binary32 x\<bar> \<le> 2 ^ E" by (rule binary32_abs_le)
  also from E have "(2 :: real) ^ E \<le> 2 ^ 127" by (intro power_increasing) simp_all
  finally have "\<bar>binary32 x\<bar> < 2 powi 128" by simp
  then show ?thesis by (simp add: to_float_def)
qed


subsection \<open>Rounding is monotone and idempotent\<close>

lemma round_even_mono: "a \<le> b \<Longrightarrow> round_even a \<le> round_even b"
proof -
  assume ab: "a \<le> b"
  then have fl: "\<lfloor>a\<rfloor> \<le> \<lfloor>b\<rfloor>" by (rule floor_mono)
  show ?thesis
  proof (cases "\<lfloor>a\<rfloor> = \<lfloor>b\<rfloor>")
    case True
    with ab show ?thesis unfolding round_even_def Let_def by auto
  next
    case False
    with fl have "\<lfloor>a\<rfloor> + 1 \<le> \<lfloor>b\<rfloor>" by simp
    moreover have "round_even a \<le> \<lfloor>a\<rfloor> + 1" unfolding round_even_def Let_def by auto
    moreover have "\<lfloor>b\<rfloor> \<le> round_even b" unfolding round_even_def Let_def by auto
    ultimately show ?thesis by linarith
  qed
qed

lemma round_even_neg: "round_even (- y) = - round_even y"
proof (cases "y = of_int \<lfloor>y\<rfloor>")
  case True
  then obtain n where "y = of_int n" ..
  then show ?thesis
    using round_even_of_int [of n] round_even_of_int [of "- n"] by simp
next
  case False
  then have c: "\<lceil>y\<rceil> = \<lfloor>y\<rfloor> + 1"
    by (metis ceiling_altdef)
  have f: "\<lfloor>- y\<rfloor> = - \<lfloor>y\<rfloor> - 1"
    using c by (simp add: ceiling_def)
  show ?thesis
    unfolding round_even_def Let_def f by (auto simp: algebra_simps)
qed

lemma float_round_neg: "float_round p lo n (- x) = - float_round p lo n x"
proof -
  have "expo_from n lo (- x) = expo_from n lo x" by (induction n) simp_all
  then show ?thesis by (simp add: float_round_def Let_def round_even_neg)
qed

lemma expo_from_range: "lo \<le> expo_from n lo x \<and> expo_from n lo x \<le> lo + int n"
  by (induction n) auto

lemma expo_from_mono: "\<bar>x\<bar> \<le> \<bar>y\<bar> \<Longrightarrow> expo_from n lo x \<le> expo_from n lo y"
proof (induction n)
  case 0
  show ?case by simp
next
  case (Suc n)
  show ?case
    using Suc expo_from_range [of lo n y] by auto
qed

lemma expo_from_upper:
  "expo_from n lo x < lo + int n \<Longrightarrow> \<bar>x\<bar> < 2 powi (expo_from n lo x + 1)"
proof (induction n)
  case 0
  then show ?case by simp
next
  case (Suc n)
  show ?case
  proof (cases "2 powi (lo + int (Suc n)) \<le> \<bar>x\<bar>")
    case True
    with Suc.prems show ?thesis by simp
  next
    case False
    show ?thesis
    proof (cases "expo_from n lo x < lo + int n")
      case True
      with Suc.IH False show ?thesis by simp
    next
      case False
      with expo_from_range [of lo n x] have "expo_from n lo x = lo + int n" by simp
      with \<open>\<not> 2 powi (lo + int (Suc n)) \<le> \<bar>x\<bar>\<close> show ?thesis
        by (simp add: add.commute add.left_commute)
    qed
  qed
qed

lemma expo_from_ge:
  "lo \<le> e \<Longrightarrow> e \<le> lo + int n \<Longrightarrow> 2 powi e \<le> \<bar>x\<bar> \<Longrightarrow> e \<le> expo_from n lo x"
proof (induction n)
  case 0
  then show ?case by simp
next
  case (Suc n)
  show ?case
  proof (cases "2 powi (lo + int (Suc n)) \<le> \<bar>x\<bar>")
    case True
    with Suc.prems show ?thesis by simp
  next
    case False
    with Suc.prems(3) have "e \<noteq> lo + int (Suc n)" by auto
    with Suc.prems(2) have "e \<le> lo + int n" by simp
    with Suc False show ?thesis by simp
  qed
qed

lemma expo_from_small: "\<bar>x\<bar> < 2 powi (lo + 1) \<Longrightarrow> expo_from n lo x = lo"
proof (induction n)
  case 0
  then show ?case by simp
next
  case (Suc n)
  have "(2 :: real) powi (lo + 1) \<le> 2 powi (lo + int (Suc n))"
    by (rule power_int_increasing) simp_all
  with Suc show ?case by simp
qed

lemma powi_split: "(2 :: real) powi a = 2 powi b * 2 powi (a - b)"
  using power_int_add [of "2 :: real" b "a - b"] by simp

lemma float_round_lower:
  assumes "2 powi (expo_from n lo x) \<le> x"
  shows "2 powi (expo_from n lo x) \<le> float_round p lo n x"
proof -
  let ?e = "expo_from n lo x"
  let ?q = "(2 :: real) powi (?e - int p)"
  have q: "0 < ?q" by simp
  have split: "(2 :: real) powi ?e = of_int (2 ^ p) * ?q"
    using powi_split [of ?e "int p"] by simp
  with assms q have "of_int (2 ^ p) \<le> x / ?q"
    by (simp add: field_simps)
  then have "2 ^ p \<le> round_even (x / ?q)" by (rule round_even_ge)
  then have "real_of_int (2 ^ p) \<le> of_int (round_even (x / ?q))" by (simp only: of_int_le_iff)
  then have "of_int (2 ^ p) * ?q \<le> of_int (round_even (x / ?q)) * ?q"
    using q by (intro mult_right_mono) simp_all
  then show ?thesis
    by (simp only: float_round_def Let_def split)
qed

lemma float_round_mono_nonneg:
  assumes "0 \<le> x" and "x \<le> y"
  shows "float_round p lo n x \<le> float_round p lo n y"
proof -
  let ?ex = "expo_from n lo x" and ?ey = "expo_from n lo y"
  from assms have "\<bar>x\<bar> \<le> \<bar>y\<bar>" by simp
  then have le: "?ex \<le> ?ey" by (rule expo_from_mono)
  show ?thesis
  proof (cases "?ex = ?ey")
    case True
    let ?q = "(2 :: real) powi (?ey - int p)"
    have q: "0 < ?q" by simp
    from assms(2) q have "x / ?q \<le> y / ?q" by (simp add: divide_right_mono)
    then have "round_even (x / ?q) \<le> round_even (y / ?q)" by (rule round_even_mono)
    then have "real_of_int (round_even (x / ?q)) \<le> of_int (round_even (y / ?q))"
      by (simp only: of_int_le_iff)
    then have "of_int (round_even (x / ?q)) * ?q \<le> of_int (round_even (y / ?q)) * ?q"
      using q by (intro mult_right_mono) simp_all
    then show ?thesis by (simp add: float_round_def Let_def True)
  next
    case False
    with le have lt: "?ex < ?ey" by simp
    with expo_from_range [of lo n y] have "?ex < lo + int n" by simp
    then have "\<bar>x\<bar> < 2 powi (?ex + 1)" by (rule expo_from_upper)
    then have "\<bar>x\<bar> \<le> 2 powi (?ex + 1)" by simp
    moreover have "lo \<le> ?ex + 1" using expo_from_range [of lo n x] by simp
    ultimately have "\<bar>float_round p lo n x\<bar> \<le> 2 powi (?ex + 1)" by (rule float_round_abs_le)
    then have a: "float_round p lo n x \<le> 2 powi (?ex + 1)" by simp
    have b: "(2 :: real) powi (?ex + 1) \<le> 2 powi ?ey"
      using lt by (intro power_int_increasing) simp_all
    from lt expo_from_range [of lo n x] have "?ey \<noteq> lo" by simp
    with expo_from_le [of n lo y] have "2 powi ?ey \<le> \<bar>y\<bar>" by simp
    with assms have "2 powi ?ey \<le> y" by simp
    then have "2 powi ?ey \<le> float_round p lo n y" by (rule float_round_lower)
    with a b show ?thesis by linarith
  qed
qed

lemma float_round_mono:
  assumes "x \<le> y"
  shows "float_round p lo n x \<le> float_round p lo n y"
proof (cases "0 \<le> x")
  case True
  then show ?thesis using assms by (rule float_round_mono_nonneg)
next
  case False
  show ?thesis
  proof (cases "0 \<le> y")
    case True
    from False have "0 \<le> - x" by simp
    then have "0 \<le> float_round p lo n (- x)" by (rule float_round_nonneg)
    then have "float_round p lo n x \<le> 0" by (simp add: float_round_neg)
    moreover from True have "0 \<le> float_round p lo n y" by (rule float_round_nonneg)
    ultimately show ?thesis by simp
  next
    case False
    then have "0 \<le> - y" and "- y \<le> - x" using assms by simp_all
    then have "float_round p lo n (- y) \<le> float_round p lo n (- x)"
      by (rule float_round_mono_nonneg)
    then show ?thesis by (simp add: float_round_neg)
  qed
qed

text \<open>A rounded number is a number of the format: rounding it again changes nothing.\<close>

lemma float_round_idem_nonneg:
  assumes "0 \<le> x"
  shows "float_round p lo n (float_round p lo n x) = float_round p lo n x"
proof -
  let ?r = "float_round p lo n x"
  let ?e = "expo_from n lo x" and ?e' = "expo_from n lo ?r"
  let ?q = "(2 :: real) powi (?e - int p)"
  have r0: "0 \<le> ?r" using assms by (rule float_round_nonneg)
  have r: "?r = of_int (round_even (x / ?q)) * ?q"
    by (simp add: float_round_def Let_def)
  have ge: "?e \<le> ?e'"
  proof (cases "?e = lo")
    case True
    then show ?thesis using expo_from_range [of lo n ?r] by simp
  next
    case False
    with expo_from_le [of n lo x] assms have "2 powi ?e \<le> x" by simp
    then have "2 powi ?e \<le> ?r" by (rule float_round_lower)
    with r0 have "2 powi ?e \<le> \<bar>?r\<bar>" by simp
    with expo_from_range [of lo n x] show ?thesis
      using expo_from_ge [of lo ?e n ?r] by simp
  qed
  show ?thesis
  proof (cases "?e' = ?e")
    case True
    have "?r = of_int (round_even (x / ?q)) * 2 powi (?e' - int p)"
      unfolding True by (rule r)
    then show ?thesis by (rule float_round_grid)
  next
    case False
    with ge have gt: "?e < ?e'" by simp
    with expo_from_range [of lo n ?r] have "?e < lo + int n" by simp
    then have "\<bar>x\<bar> < 2 powi (?e + 1)" by (rule expo_from_upper)
    then have "\<bar>x\<bar> \<le> 2 powi (?e + 1)" by simp
    moreover have "lo \<le> ?e + 1" using expo_from_range [of lo n x] by simp
    ultimately have "\<bar>?r\<bar> \<le> 2 powi (?e + 1)" by (rule float_round_abs_le)
    with r0 have up: "?r \<le> 2 powi (?e + 1)" by simp
    from gt expo_from_range [of lo n x] have "?e' \<noteq> lo" by simp
    with expo_from_le [of n lo ?r] r0 have low: "2 powi ?e' \<le> ?r" by simp
    from low up have "(2 :: real) powi ?e' \<le> 2 powi (?e + 1)" by simp
    then have "?e' \<le> ?e + 1" by (rule powi_le_imp)
    with gt have e': "?e' = ?e + 1" by simp
    from low up have "?r = 2 powi ?e'" by (simp add: e')
    moreover have "(2 :: real) powi ?e' = of_int (2 ^ p) * 2 powi (?e' - int p)"
      using powi_split [of ?e' "int p"] by simp
    ultimately have "?r = of_int (2 ^ p) * 2 powi (?e' - int p)" by simp
    then show ?thesis by (rule float_round_grid)
  qed
qed

lemma float_round_idem:
  "float_round p lo n (float_round p lo n x) = float_round p lo n x"
proof (cases "0 \<le> x")
  case True
  then show ?thesis by (rule float_round_idem_nonneg)
next
  case False
  then have "0 \<le> - x" by simp
  from float_round_idem_nonneg [OF this, of p lo n] show ?thesis
    by (simp add: float_round_neg)
qed

text \<open>Every number of the format is a multiple of the smallest positive one.\<close>

lemma float_round_multiple:
  "\<exists>m. float_round p lo n x = of_int m * 2 powi (lo - int p)"
proof -
  let ?e = "expo_from n lo x"
  have "lo \<le> ?e" using expo_from_range [of lo n x] by simp
  then have k: "(2 :: real) powi (?e - lo) = of_int (2 ^ nat (?e - lo))"
    by (intro powi_nat) simp
  have "(2 :: real) powi (?e - int p) = 2 powi (?e - lo) * 2 powi (lo - int p)"
    using power_int_add [of "2 :: real" "?e - lo" "lo - int p"] by simp
  then have "float_round p lo n x
      = of_int (round_even (x / 2 powi (?e - int p)) * 2 ^ nat (?e - lo)) * 2 powi (lo - int p)"
    by (simp add: float_round_def Let_def k mult.assoc)
  then show ?thesis ..
qed

text \<open>A multiple of the smallest positive number, below the normal range, is of the format.\<close>

lemma float_round_small:
  fixes x :: real
  assumes "x = of_int m * 2 powi (lo - int p)" and "\<bar>x\<bar> < 2 powi (lo + 1)"
  shows "float_round p lo n x = x"
proof -
  have "expo_from n lo x = lo" using assms(2) by (rule expo_from_small)
  with assms(1) have "x = of_int m * 2 powi (expo_from n lo x - int p)" by simp
  then show ?thesis by (rule float_round_grid)
qed

text \<open>The relative error of rounding a number of the normal range.\<close>

lemma float_round_relative:
  assumes "2 powi lo \<le> \<bar>x\<bar>"
  shows "\<bar>float_round p lo n x - x\<bar> \<le> \<bar>x\<bar> / 2 ^ (p + 1)"
proof -
  let ?e = "expo_from n lo x"
  have "2 powi ?e \<le> \<bar>x\<bar>"
    using expo_from_le [of n lo x] assms by auto
  then have "2 powi ?e / 2 ^ (p + 1) \<le> \<bar>x\<bar> / 2 ^ (p + 1)"
    by (intro divide_right_mono) simp_all
  moreover have "(2 :: real) powi (?e - int p) / 2 = 2 powi ?e / 2 ^ (p + 1)"
    using powi_split [of ?e "int p"] by simp
  ultimately have "(2 :: real) powi (?e - int p) / 2 \<le> \<bar>x\<bar> / 2 ^ (p + 1)"
    by (simp only:)
  with float_round_half [of p lo n x] show ?thesis by linarith
qed


lemma binary32_mono: "x \<le> y \<Longrightarrow> binary32 x \<le> binary32 y"
  unfolding binary32_def by (rule float_round_mono)

lemma binary32_idem: "binary32 (binary32 x) = binary32 x"
  unfolding binary32_def by (rule float_round_idem)

lemma binary32_neg: "binary32 (- x) = - binary32 x"
  unfolding binary32_def by (rule float_round_neg)

lemma binary32_grid:
  assumes f: "binary32 v = v" and a: "- 126 \<le> a" "a \<le> 127" and v: "2 powi a \<le> \<bar>v\<bar>"
  shows "\<exists>n. v = of_int n * 2 powi (a - 23)"
proof -
  let ?e = "expo_from 253 (- 126) v"
  have "a \<le> ?e" using a v by (intro expo_from_ge) simp_all
  then have k: "(2 :: real) powi (?e - a) = of_int (2 ^ nat (?e - a))"
    by (intro powi_nat) simp
  have "(2 :: real) powi (?e - 23) = 2 powi (?e - a) * 2 powi (a - 23)"
    using power_int_add [of "2 :: real" "?e - a" "a - 23"] by simp
  then have "binary32 v = of_int (round_even (v / 2 powi (?e - 23)) * 2 ^ nat (?e - a)) * 2 powi (a - 23)"
    by (simp add: binary32_def float_round_def Let_def k mult.assoc)
  with f show ?thesis by metis
qed

lemma binary32_powi:
  assumes "- 126 \<le> j" and "j \<le> 127"
  shows "binary32 (2 powi j) = 2 powi j"
proof -
  have "(2 :: real) powi j / 2 powi (j - 23) = of_int (2 ^ 23)"
    using powi_split [of j "j - 23"] by simp
  moreover have "(2 :: real) powi j < 2 powi (j + 1)"
    by (intro power_int_strict_increasing) simp_all
  ultimately show ?thesis
    using binary32_at [of j "2 powi j"] assms powi_split [of j "j - 23"]
    by (simp add: round_even_def)
qed


text \<open>
  A \<^verbatim>\<open>float\<close> \<open>v\<close> with \<open>255 * v\<close> below an integer \<open>K\<close> keeps \<open>255 * v\<close> more than half
  a rounding step below \<open>K\<close>: 255 is odd, so the multiples of 255 on the grid of \<open>v\<close>
  do not come near \<open>K\<close>.
\<close>

lemma binary32_error_powi:
  "\<bar>x\<bar> \<le> 2 powi E \<Longrightarrow> - 126 < E \<Longrightarrow> \<bar>binary32 x - x\<bar> \<le> 2 powi (E - 25)"
  using float_round_error [of x E "- 126" 23 253] by (simp add: binary32_def)

section \<open>The encoder produces the wire format\<close>

lemma length_le16 [simp]: "length (le16 c) = 2"
  by (simp add: le16_def)

lemma m255: "(0xFF :: 16 word) = mask 8" by (simp add: mask_eq_exp_minus_1)

lemma counter_lo: "(ucast ((of_nat c :: u16) AND 0xFF) :: u8) = of_nat (c mod 256)"
proof -
  have m: "c mod 256 = take_bit 8 c" by (simp add: take_bit_eq_mod)
  show ?thesis
    unfolding m255 m by (rule bit_word_eqI) (auto simp add: bit_simps)
qed

lemma counter_hi: "c < 65536 \<Longrightarrow> (ucast (drop_bit 8 (of_nat c :: u16)) :: u8) = of_nat (c div 256)"
  by (rule bit_word_eqI) (auto simp add: bit_simps simp flip: drop_bit_eq_div [where n = 8, simplified])

lemma counter_bytes:
  "c < 65536 \<Longrightarrow> [ucast ((of_nat c :: u16) AND 0xFF), ucast (drop_bit 8 (of_nat c :: u16))] = le16 c"
  by (simp only: le16_def counter_lo counter_hi)

lemma le16_value:
  assumes "c < 65536" and "le16 c = [lo, hi]"
  shows "unat lo + 256 * unat hi = c"
proof -
  have "unat (of_nat (c mod 256) :: u8) = c mod 256"
    by (simp add: unat_of_nat)
  moreover have "unat (of_nat (c div 256) :: u8) = c div 256"
    using assms(1) by (simp add: unat_of_nat)
  ultimately show ?thesis using assms(2) by (auto simp: le16_def)
qed

lemma inner_steps:
  "unat x + n \<le> 62 \<Longrightarrow> unat c + n \<le> 512 \<Longrightarrow> fi + n \<le> length from \<Longrightarrow> ti + n \<le> length to \<Longrightarrow>
   convert_inner from x c fi ti to =
   convert_inner from (x + of_nat n) (c + of_nat n) (fi + n) (ti + n)
     (take ti to @ take n (drop fi from) @ drop (ti + n) to)"
proof (induction n arbitrary: x c fi ti to)
  case 0
  then show ?case by simp
next
  case (Suc n)
  let ?to = "to[ti := from ! fi]"
  have x: "x \<noteq> 62" using Suc.prems(1) by auto
  have c: "c \<noteq> 512" using Suc.prems(2) by auto
  have ux: "unat (x + 1) = unat x + 1"
    using Suc.prems(1) by (simp add: unat_word_ariths)
  have uc: "unat (c + 1) = unat c + 1"
    using Suc.prems(2) by (simp add: unat_word_ariths)
  have step: "convert_inner from x c fi ti to =
      convert_inner from (x + 1) (c + 1) (Suc fi) (Suc ti) ?to"
    using x c Suc.prems(3,4) by (simp add: convert_inner.simps [of "from" x c fi ti to])
  have ih: "convert_inner from (x + 1) (c + 1) (Suc fi) (Suc ti) ?to =
      convert_inner from (x + 1 + of_nat n) (c + 1 + of_nat n) (Suc fi + n) (Suc ti + n)
       (take (Suc ti) ?to @ take n (drop (Suc fi) from) @ drop (Suc ti + n) ?to)"
    using Suc.prems by (intro Suc.IH) (simp_all add: ux uc)
  have a: "take (Suc ti) ?to = take ti to @ [from ! fi]"
  proof -
    have "ti < length ?to" using Suc.prems(4) by simp
    from take_Suc_conv_app_nth [OF this] show ?thesis using Suc.prems(4) by simp
  qed
  have b: "take (Suc n) (drop fi from) = from ! fi # take n (drop (Suc fi) from)"
    using Suc.prems(3) by (simp add: Cons_nth_drop_Suc [symmetric])
  have d: "drop (Suc ti + n) ?to = drop (ti + Suc n) to"
    by simp
  have buf: "take (Suc ti) ?to @ take n (drop (Suc fi) from) @ drop (Suc ti + n) ?to =
      take ti to @ take (Suc n) (drop fi from) @ drop (ti + Suc n) to"
    unfolding a b d by simp
  have args: "x + 1 + of_nat n = x + of_nat (Suc n)" "c + 1 + of_nat n = c + of_nat (Suc n)"
      "Suc fi + n = fi + Suc n" "Suc ti + n = ti + Suc n"
    by simp_all
  have "convert_inner from x c fi ti to =
      convert_inner from (x + 1 + of_nat n) (c + 1 + of_nat n) (Suc fi + n) (Suc ti + n)
        (take ti to @ take (Suc n) (drop fi from) @ drop (ti + Suc n) to)"
    by (simp only: step ih buf)
  then show ?case
    by (simp only: args)
qed


lemma unat_of_nat_u16: "m < 65536 \<Longrightarrow> unat (of_nat m :: u16) = m"
  by (simp add: unat_of_nat)

lemma unat_of_nat_u8: "m < 256 \<Longrightarrow> unat (of_nat m :: u8) = m"
  by (simp add: unat_of_nat)

lemma convert_inner_stop:
  "\<not> (x \<noteq> 62 \<and> c \<noteq> 512) \<Longrightarrow> convert_inner from x c fi ti to = Inr (c, fi, ti, to)"
  by (subst convert_inner.simps) auto

lemma outer_step:
  assumes cn: "c + n \<le> 512" and n0: "0 < n" and n62: "n \<le> 62"
    and stop: "n = 62 \<or> c + n = 512"
    and lf: "c + n \<le> length from" and lt: "ti + 2 + n \<le> length to"
  shows "convert_outer from (of_nat c) c ti to =
    convert_outer from (of_nat (c + n)) (c + n) (ti + 2 + n)
      (take ti to @ [ucast ((of_nat c :: u16) AND 0xFF), ucast (drop_bit 8 (of_nat c :: u16))]
         @ take n (drop c from) @ drop (ti + 2 + n) to)"
proof -
  let ?c = "of_nat c :: u16"
  let ?to2 = "to[ti := ucast (?c AND 0xFF), ti + 1 := ucast (drop_bit 8 ?c)]"
  have uc: "unat ?c = c" using cn n0 by (simp add: unat_of_nat_u16)
  have c512: "?c \<noteq> 512"
  proof
    assume "?c = 512"
    then have "unat ?c = unat (512 :: u16)" by simp
    with uc cn n0 show False by simp
  qed
  have inner: "convert_inner from 0 ?c c (ti + 2) ?to2 =
      convert_inner from (0 + of_nat n) (?c + of_nat n) (c + n) (ti + 2 + n)
        (take (ti + 2) ?to2 @ take n (drop c from) @ drop (ti + 2 + n) ?to2)"
    using cn n62 lf lt by (intro inner_steps) (simp_all add: uc)
  have stopped: "\<not> ((0 + of_nat n :: u8) \<noteq> 62 \<and> ?c + of_nat n \<noteq> 512)"
    using stop by (auto simp flip: of_nat_add)
  have buf: "take (ti + 2) ?to2 @ take n (drop c from) @ drop (ti + 2 + n) ?to2 =
      take ti to @ [ucast (?c AND 0xFF), ucast (drop_bit 8 ?c)] @ take n (drop c from) @ drop (ti + 2 + n) to"
  proof -
    have "take (ti + 2) ?to2 = take ti to @ [ucast (?c AND 0xFF), ucast (drop_bit 8 ?c)]"
      using lt by (simp add: list_eq_iff_nth_eq nth_append nth_list_update min_def less_Suc_eq)
    moreover have "drop (ti + 2 + n) ?to2 = drop (ti + 2 + n) to"
      by simp
    ultimately show ?thesis by simp
  qed
  have "convert_inner from 0 ?c c (ti + 2) ?to2 =
      Inr (?c + of_nat n, c + n, ti + 2 + n,
        take ti to @ [ucast (?c AND 0xFF), ucast (drop_bit 8 ?c)] @ take n (drop c from) @ drop (ti + 2 + n) to)"
    unfolding inner buf using stopped
    by (rule convert_inner_stop)
  then show ?thesis
    using c512 lt by (subst convert_outer.simps) simp
qed


lemma length_chunk: "length from = 512 \<Longrightarrow> k < 8 \<Longrightarrow> length (chunk from k) = 64"
  by (simp add: chunk_def)

lemma length_chunk_last: "length from = 512 \<Longrightarrow> length (chunk from 8) = 18"
  by (simp add: chunk_def)

lemma wire_frame_Suc: "wire_frame from (Suc k) = wire_frame from k @ chunk from k"
  by (simp add: wire_frame_def)

lemma length_wire_frame: "length from = 512 \<Longrightarrow> k \<le> 8 \<Longrightarrow> length (wire_frame from k) = 64 * k"
  by (induction k) (simp_all add: wire_frame_def length_chunk)

lemma outer_chunks:
  assumes lf: "length from = 512" and lt: "length to = 530"
  shows "k \<le> 8 \<Longrightarrow> convert_outer from 0 0 0 to =
    convert_outer from (of_nat (62 * k)) (62 * k) (64 * k) (wire_frame from k @ drop (64 * k) to)"
proof (induction k)
  case 0
  then show ?case by (simp add: wire_frame_def)
next
  case (Suc k)
  let ?to = "wire_frame from k @ drop (64 * k) to"
  have lfr: "length (wire_frame from k) = 64 * k"
    using Suc.prems lf by (simp add: length_wire_frame)
  have "convert_outer from (of_nat (62 * k)) (62 * k) (64 * k) ?to =
    convert_outer from (of_nat (62 * k + 62)) (62 * k + 62) (64 * k + 2 + 62)
      (take (64 * k) ?to @ [ucast ((of_nat (62 * k) :: u16) AND 0xFF), ucast (drop_bit 8 (of_nat (62 * k) :: u16))]
         @ take 62 (drop (62 * k) from) @ drop (64 * k + 2 + 62) ?to)"
    using Suc.prems lf lt lfr by (intro outer_step) simp_all
  also have "take (64 * k) ?to @ [ucast ((of_nat (62 * k) :: u16) AND 0xFF), ucast (drop_bit 8 (of_nat (62 * k) :: u16))]
         @ take 62 (drop (62 * k) from) @ drop (64 * k + 2 + 62) ?to =
      wire_frame from (Suc k) @ drop (64 * Suc k) to"
  proof -
    have "[ucast ((of_nat (62 * k) :: u16) AND 0xFF), ucast (drop_bit 8 (of_nat (62 * k) :: u16))] = le16 (62 * k)"
      using Suc.prems by (intro counter_bytes) simp
    then show ?thesis
      using lfr by (simp add: wire_frame_Suc chunk_def del: of_nat_mult)
  qed
  finally show ?case
    using Suc by (simp add: add.commute)
qed

lemma convert_wire_frame:
  assumes lf: "length from = 512" and lt: "length to = 530"
  shows "convert from to = Inr (wire_frame from 9)"
proof -
  let ?to = "wire_frame from 8 @ drop 512 to"
  have lfr: "length (wire_frame from 8) = 512"
    using lf by (simp add: length_wire_frame)
  have "convert from to = convert_outer from (of_nat 496) 496 512 ?to"
    using outer_chunks [OF lf lt, of 8] by (simp add: convert_def)
  also have "\<dots> = convert_outer from (of_nat (496 + 16)) (496 + 16) (512 + 2 + 16)
      (take 512 ?to @ [ucast ((of_nat 496 :: u16) AND 0xFF), ucast (drop_bit 8 (of_nat 496 :: u16))]
         @ take 16 (drop 496 from) @ drop (512 + 2 + 16) ?to)"
    using lf lt lfr by (intro outer_step) simp_all
  also have "take 512 ?to @ [ucast ((of_nat 496 :: u16) AND 0xFF), ucast (drop_bit 8 (of_nat 496 :: u16))]
         @ take 16 (drop 496 from) @ drop (512 + 2 + 16) ?to = wire_frame from 9"
  proof -
    have "wire_frame from 9 = wire_frame from 8 @ chunk from 8"
      using wire_frame_Suc [of "from" 8] by simp
    moreover have "[ucast ((of_nat 496 :: u16) AND 0xFF), ucast (drop_bit 8 (of_nat 496 :: u16))] = le16 496"
      by (intro counter_bytes) simp
    ultimately show ?thesis using lfr lf lt by (simp add: chunk_def)
  qed
  also have "convert_outer from (of_nat (496 + 16)) (496 + 16) (512 + 2 + 16) (wire_frame from 9) = Inr (wire_frame from 9)"
    by (subst convert_outer.simps) simp
  finally show ?thesis .
qed


lemma decode_chunk:
  assumes lf: "length from = 512" and k: "k \<le> 8"
  shows "decode_loop uni (chunk from k @ rest) =
    decode_loop (take (62 * k) uni @ take (min 62 (512 - 62 * k)) (drop (62 * k) from)
       @ drop (62 * k + min 62 (512 - 62 * k)) uni) rest"
proof -
  define c where "c = 62 * k"
  define n where "n = min 62 (512 - c)"
  obtain lo hi where le: "le16 c = [lo, hi]"
    by (simp add: le16_def)
  have c: "unat lo + 256 * unat hi = c"
    using k le by (intro le16_value) (simp_all add: c_def)
  have c512: "c < 512" using k by (simp add: c_def)
  have pay: "take 62 (drop c from) = take n (drop c from)"
    using lf by (simp add: n_def min_def)
  have len: "length (take n (drop c from)) = n"
    using lf c512 by (simp add: n_def)
  have "decode_loop uni (lo # hi # take n (drop c from) @ rest) =
      decode_loop (take c uni @ take n (take n (drop c from) @ rest) @ drop (c + n) uni)
        (drop n (take n (drop c from) @ rest))"
  proof -
    have guard: "\<not> (512 \<le> c \<or> length (take n (drop c from) @ rest) < n)"
      using c512 len by simp
    show ?thesis
      by (subst decode_loop.simps) (simp only: Let_def c n_def [symmetric] guard if_False)
  qed
  also have "take n (take n (drop c from) @ rest) = take n (drop c from)"
    using len by simp
  also have "drop n (take n (drop c from) @ rest) = rest"
    using len by simp
  finally show ?thesis
    by (simp add: chunk_def le pay flip: c_def n_def)
qed

lemma decode_chunks:
  assumes lf: "length from = 512" and lu: "length uni = 512"
  shows "j \<le> 9 \<Longrightarrow>
    decode_loop (take (62 * j) from @ drop (62 * j) uni) (concat (map (chunk from) [j..<9])) = Some from"
proof (induction j rule: inc_induct)
  case base
  then show ?case using lf lu by simp
next
  case (step j)
  have j: "j \<le> 8" using step.hyps by simp
  let ?n = "min 62 (512 - 62 * j)"
  let ?u = "take (62 * j) from @ drop (62 * j) uni"
  have upt: "[j..<9] = j # [Suc j..<9]"
    using step.hyps by (simp add: upt_conv_Cons)
  have "take (62 * j) ?u @ take ?n (drop (62 * j) from) @ drop (62 * j + ?n) ?u =
      take (62 * Suc j) from @ drop (62 * Suc j) uni"
    using lf lu j
    by (auto simp add: list_eq_iff_nth_eq nth_append min_def)
  with decode_chunk [OF lf j, of ?u "concat (map (chunk from) [Suc j..<9])"] step.IH
  show ?case by (simp add: upt)
qed

lemma decode_wire_frame: "length from = 512 \<Longrightarrow> decode_frame (wire_frame from 9) = Some from"
  using decode_chunks [of "from" "replicate 512 0" 0] by (simp add: decode_frame_def wire_frame_def)


text \<open>
  Claim C1. For every universe of 512 bytes and every previous content of the 530-byte
  output array, \<open>convert\<close> returns without a fault, and what it returns depends on the
  universe alone: the nine chunks starting at channels 0, 62, ..., 496, each the channel
  index as two bytes, low byte first, and then its channel bytes; eight chunks carry 62
  channels and the last 16, which makes 530 bytes; decoding the frame gives the universe
  back.
\<close>

theorem convert_roundtrip:
  assumes "length from = 512" and "length to = 530"
  shows "convert from to = Inr (wire_frame from 9)
    \<and> length (wire_frame from 9) = 530
    \<and> (\<forall>k<8. length (chunk from k) = 2 + 62)
    \<and> length (chunk from 8) = 2 + 16
    \<and> decode_frame (wire_frame from 9) = Some from"
proof -
  have "wire_frame from 9 = wire_frame from 8 @ chunk from 8"
    using wire_frame_Suc [of "from" 8] by simp
  then have "length (wire_frame from 9) = 530"
    using assms(1) by (simp add: length_wire_frame length_chunk_last)
  then show ?thesis
    using assms by (simp add: convert_wire_frame length_chunk length_chunk_last decode_wire_frame)
qed

theorem convert_roundtrip_witness:
  "convert (replicate 512 7) (replicate 530 0) = Inr (wire_frame (replicate 512 7) 9)
    \<and> length (wire_frame (replicate 512 7) 9) = 530
    \<and> decode_frame (wire_frame (replicate 512 7) 9) = Some (replicate 512 7)"
  using convert_roundtrip [of "replicate 512 7" "replicate 530 0"] by simp

section \<open>Triggers\<close>

text \<open>
  Claim C10. \<open>trigger\<close> with a light index of 8 or more, and any velocity, returns without
  a fault (it reads and writes no entry of \<open>led_map\<close>) and leaves the state as it was.
\<close>

theorem trigger_out_of_range:
  "LEDS \<le> unat which \<Longrightarrow> trigger which velocity g = Inr g"
  by (simp add: trigger_def)

theorem trigger_out_of_range_witness:
  "LEDS \<le> unat (128 :: u8) \<and> trigger 128 100 (globals_init None) = Inr (globals_init None)"
  using trigger_out_of_range [of 128 100 "globals_init None"] by (simp add: LEDS_def)






section \<open>Events\<close>

text \<open>
  Claim C6. The note map has 26 entries, for the 26 consecutive notes from \<open>NOTE_START\<close>
  up to \<open>NOTE_END\<close>. A note-on event whose note is outside that range, or whose entry
  is 0 (no light), leaves every light, and all the rest of the state, unchanged.
\<close>

theorem unmapped_note_no_change:
  "length midi_map = 26
   \<and> {n. NOTE_START \<le> n \<and> n < NOTE_END} = {60..<86}
   \<and> card {n. NOTE_START \<le> n \<and> n < NOTE_END} = length midi_map
   \<and> (unat note < NOTE_START \<or> NOTE_END \<le> unat note \<or> midi_map ! (unat note - NOTE_START) = 0
        \<longrightarrow> alsa_event cfg r1 r2 (NOTEON channel note velocity) g = Inr g)"
proof -
  have len: "length midi_map = 26" by (simp add: midi_map_def)
  have rng: "{n. NOTE_START \<le> n \<and> n < NOTE_END} = {60..<86}"
    by (auto simp: NOTE_START_def NOTE_END_def)
  have "alsa_event cfg r1 r2 (NOTEON channel note velocity) g = Inr g"
    if "unat note < NOTE_START \<or> NOTE_END \<le> unat note \<or> midi_map ! (unat note - NOTE_START) = 0"
    using that len by (auto simp: alsa_event_def NOTE_START_def NOTE_END_def)
  then show ?thesis using len rng by simp
qed

theorem unmapped_note_no_change_witness:
  "alsa_event None 0 0 (NOTEON 0 59 100) (globals_init None) = Inr (globals_init None)
   \<and> alsa_event None 0 0 (NOTEON 0 86 100) (globals_init None) = Inr (globals_init None)
   \<and> midi_map ! (unat (72 :: u8) - NOTE_START) = 0
   \<and> alsa_event None 0 0 (NOTEON 0 72 100) (globals_init None) = Inr (globals_init None)"
proof -
  have z: "midi_map ! (unat (72 :: u8) - NOTE_START) = 0"
    by (simp add: midi_map_def NOTE_START_def)
  show ?thesis
    using unmapped_note_no_change [of 59 None 0 0 0 100 "globals_init None"]
      unmapped_note_no_change [of 86 None 0 0 0 100 "globals_init None"]
      unmapped_note_no_change [of 72 None 0 0 0 100 "globals_init None"] z
    by (simp add: NOTE_START_def NOTE_END_def)
qed

section \<open>The decay constant\<close>

lemma update_decay: "update which i r g b st = Inr st' \<Longrightarrow> global_decay st' = global_decay st"
  by (auto simp: update_def Let_def split: if_splits sum.splits)

lemma trigger_decay: "trigger which m g = Inr g' \<Longrightarrow> global_decay g' = global_decay g"
  by (auto simp: trigger_def Let_def split: if_splits sum.splits)

lemma to_float_fault: "to_float x = Inl e \<Longrightarrow> e = NotFinite"
  by (auto simp: to_float_def split: if_splits)

lemma decay_step_fault: "decay_step k t v = Inl e \<Longrightarrow> e = NotFinite"
  by (auto simp: decay_step_def split: sum.splits dest: to_float_fault)

lemma update_no_division_by_zero:
  "global_decay st \<noteq> 0 \<Longrightarrow> update which ti tr tg tb st \<noteq> Inl DivByZero"
  by (auto simp: update_def Let_def split: sum.splits dest: decay_step_fault)

lemma update_pixel_speed_decay:
  "update_pixel_speed cfg r1 r2 g = Inr g' \<Longrightarrow> global_decay g' = global_decay g"
  by (auto simp: update_pixel_speed_def Let_def split: option.splits if_splits sum.splits)

lemma advance_image_decay: "advance_image cfg g = Inr g' \<Longrightarrow> global_decay g' = global_decay g"
  by (auto simp: advance_image_def split: option.splits)

lemma led_iter_decay:
  "led_iter pic x (p, buf, g) = Inr (p', buf', g') \<Longrightarrow> global_decay g' = global_decay g"
  by (auto simp: led_iter_def split: option.splits prod.splits sum.splits dest: update_decay)

lemma led_loop_decay:
  "led_loop pic xs (p, buf, g) = Inr (p', buf', g') \<Longrightarrow> global_decay g' = global_decay g"
proof (induction xs arbitrary: p buf g)
  case Nil
  then show ?case by simp
next
  case (Cons x xs)
  then obtain p1 buf1 g1 where it: "led_iter pic x (p, buf, g) = Inr (p1, buf1, g1)"
    and rest: "led_loop pic xs (p1, buf1, g1) = Inr (p', buf', g')"
    by (auto split: sum.splits)
  from Cons.IH [OF rest] led_iter_decay [OF it] show ?case by simp
qed

lemma render_leds_decay:
  "render_leds cfg buf g = Inr (buf', g') \<Longrightarrow> global_decay g' = global_decay g"
  by (auto simp: render_leds_def split: option.splits sum.splits dest: led_loop_decay)

lemma count_tick_decay:
  "count_tick cfg r1 r2 w g = Inr (w', g') \<Longrightarrow> global_decay g' = global_decay g"
  by (auto simp: count_tick_def Let_def split: if_splits sum.splits dest: update_pixel_speed_decay)

lemma usb_write_iter_decay:
  assumes "usb_write_iter cfg inp (w, g) = Inr (b, w', g')"
  shows "global_decay g' = global_decay g"
proof -
  obtain sent r1 r2 where inp: "inp = (sent, r1, r2)" by (cases inp)
  show ?thesis
    using assms unfolding inp usb_write_iter_def Let_def
    by (auto split: sum.splits if_splits prod.splits
        dest!: advance_image_decay render_leds_decay count_tick_decay)
qed

lemma alsa_event_decay_other:
  "alsa_event cfg r1 r2 ev g = Inr g' \<Longrightarrow> \<forall>v. ev \<noteq> CONTROLLER 113 v \<Longrightarrow> global_decay g' = global_decay g"
  by (cases ev)
     (auto simp: alsa_event_def split: if_splits sum.splits dest: trigger_decay update_pixel_speed_decay)

lemma alsa_event_decay_write:
  assumes "0 \<le> sint v" and "sint v \<le> 127"
  shows "alsa_event cfg r1 r2 (CONTROLLER 113 v) g = Inr (g\<lparr>global_decay := real_of_int (sint v) + 1\<rparr>)"
proof -
  let ?n = "nat (sint v + 1)"
  have n: "?n < 2 ^ 24" using assms by simp
  have e: "real_of_int (sint v + 1) = real ?n" using assms(1) by simp
  have "?n \<le> 128" using assms by simp
  then have "real ?n \<le> real 128" by (simp only: of_nat_le_iff)
  then have "\<bar>real ?n\<bar> \<le> 2 ^ 7" by simp
  from to_float_finite [OF this] binary32_of_nat [OF n]
  have "to_float (real_of_int (sint v + 1)) = Inr (real_of_int (sint v + 1))"
    by (simp only: e)
  then have "to_float (real_of_int (sint v + 1)) = Inr (real_of_int (sint v) + 1)"
    by simp
  moreover have "sint v \<noteq> 2 ^ 31 - 1" using assms(2) by simp
  ultimately show ?thesis
    by (simp add: alsa_event_def)
qed

lemma system_step_decay:
  assumes "system_step cfg a (h, w, g) = Inr (h', w', g')" and "1 \<le> global_decay g"
    and "\<forall>r1 r2 v. a = Event (CONTROLLER 113 v) r1 r2 \<longrightarrow> 0 \<le> sint v \<and> sint v \<le> 127"
  shows "1 \<le> global_decay g'"
proof (cases a)
  case (Render sent r1 r2)
  with assms(1,2) show ?thesis
    by (auto split: if_splits dest: usb_write_iter_decay)
next
  case (Event ev r1 r2)
  with assms(1) have ev: "alsa_event cfg r1 r2 ev g = Inr g'"
    by (auto split: sum.splits)
  show ?thesis
  proof (cases "\<exists>v. ev = CONTROLLER 113 v")
    case True
    then obtain v where v: "ev = CONTROLLER 113 v" by blast
    with assms(3) Event have "0 \<le> sint v" "sint v \<le> 127" by auto
    from alsa_event_decay_write [OF this, of cfg r1 r2 g] ev v
    have "g' = g\<lparr>global_decay := real_of_int (sint v) + 1\<rparr>"
      by simp
    then have "global_decay g' = real_of_int (sint v) + 1"
      by simp
    moreover have "0 \<le> real_of_int (sint v)"
      using \<open>0 \<le> sint v\<close> by (simp only: of_int_0_le_iff)
    ultimately show ?thesis by simp
  next
    case False
    with alsa_event_decay_other [OF ev] assms(2) show ?thesis by simp
  qed
qed

lemma system_run_decay:
  "system_run cfg acts (h, w, g) = Inr (h', w', g') \<Longrightarrow> 1 \<le> global_decay g \<Longrightarrow>
   \<forall>r1 r2 v. Event (CONTROLLER 113 v) r1 r2 \<in> set acts \<longrightarrow> 0 \<le> sint v \<and> sint v \<le> 127 \<Longrightarrow>
   1 \<le> global_decay g'"
proof (induction acts arbitrary: h w g)
  case Nil
  then show ?case by simp
next
  case (Cons a acts)
  from Cons.prems(1) obtain h1 w1 g1 where st: "system_step cfg a (h, w, g) = Inr (h1, w1, g1)"
    and rest: "system_run cfg acts (h1, w1, g1) = Inr (h', w', g')"
    by (auto split: sum.splits)
  have "1 \<le> global_decay g1"
    using st Cons.prems(2,3) by (intro system_step_decay [OF st]) auto
  with Cons.IH [OF rest] Cons.prems(3) show ?case by simp
qed

text \<open>
  Claim C9. The decay constant starts at 3. A controller event with parameter 113 and a
  raw value from 0 to 127 sets it to the raw value plus 1; no other event and no pass of
  the render loop changes it. So in every state the two threads reach from the initial
  one, with raw values in that range, it is at least 1, and \<open>update\<close>, which divides by
  it, does not divide by zero.
\<close>

theorem decay_at_least_one:
  "global_decay (globals_init cfg) = 3
   \<and> (0 \<le> sint v \<and> sint v \<le> 127 \<longrightarrow>
        alsa_event cfg r1 r2 (CONTROLLER 113 v) g = Inr (g\<lparr>global_decay := real_of_int (sint v) + 1\<rparr>))
   \<and> (alsa_event cfg r1 r2 ev g = Inr g2 \<and> (\<forall>x. ev \<noteq> CONTROLLER 113 x) \<longrightarrow>
        global_decay g2 = global_decay g)
   \<and> (usb_write_iter cfg inp (w, g) = Inr (b, w3, g3) \<longrightarrow> global_decay g3 = global_decay g)
   \<and> ((\<forall>s1 s2 x. Event (CONTROLLER 113 x) s1 s2 \<in> set acts \<longrightarrow> 0 \<le> sint x \<and> sint x \<le> 127)
        \<and> system_run cfg acts (False, write_loop_init, globals_init cfg) = Inr (h, w', g')
       \<longrightarrow> 1 \<le> global_decay g' \<and> update which ti tr tg tb g' \<noteq> Inl DivByZero)"
proof -
  have init: "global_decay (globals_init cfg) = 3"
    by (simp add: globals_init_def)
  have no_div: "update which ti tr tg tb st \<noteq> Inl DivByZero" if "1 \<le> global_decay st" for st
    using that by (intro update_no_division_by_zero) simp
  have "1 \<le> global_decay g'"
    if "\<forall>s1 s2 x. Event (CONTROLLER 113 x) s1 s2 \<in> set acts \<longrightarrow> 0 \<le> sint x \<and> sint x \<le> 127"
      and "system_run cfg acts (False, write_loop_init, globals_init cfg) = Inr (h, w', g')"
    using system_run_decay [OF that(2) _ that(1)] init by simp
  with no_div [of g'] have "1 \<le> global_decay g' \<and> update which ti tr tg tb g' \<noteq> Inl DivByZero"
    if "\<forall>s1 s2 x. Event (CONTROLLER 113 x) s1 s2 \<in> set acts \<longrightarrow> 0 \<le> sint x \<and> sint x \<le> 127"
      and "system_run cfg acts (False, write_loop_init, globals_init cfg) = Inr (h, w', g')"
    using that by blast
  then show ?thesis
    using init alsa_event_decay_write [of v cfg r1 r2 g] alsa_event_decay_other [of cfg r1 r2 ev g g2]
      usb_write_iter_decay [of cfg inp w g b w3 g3]
    by blast
qed

theorem decay_at_least_one_witness:
  "alsa_event None 0 0 (CONTROLLER 113 0) (globals_init None) = Inr ((globals_init None)\<lparr>global_decay := 1\<rparr>)
   \<and> system_run None [Event (CONTROLLER 113 0) 0 0] (False, write_loop_init, globals_init None)
       = Inr (False, write_loop_init, (globals_init None)\<lparr>global_decay := 1\<rparr>)
   \<and> 1 \<le> global_decay ((globals_init None)\<lparr>global_decay := 1\<rparr>)"
proof -
  let ?g = "(globals_init None)\<lparr>global_decay := 1\<rparr>"
  have ev: "alsa_event None 0 0 (CONTROLLER 113 0) (globals_init None) = Inr ?g"
    using decay_at_least_one [of None 0 0 0 "globals_init None"] by simp
  then have run: "system_run None [Event (CONTROLLER 113 0) 0 0] (False, write_loop_init, globals_init None)
       = Inr (False, write_loop_init, ?g)"
    by simp
  have "1 \<le> global_decay ?g"
    using decay_at_least_one [of None 0 0 0 "globals_init None" OTHER "globals_init None"
        "(False, 0, 0)" write_loop_init False write_loop_init "globals_init None"
        "[Event (CONTROLLER 113 0) 0 0]" False write_loop_init ?g] run
    by simp
  with ev run show ?thesis by simp
qed


section \<open>The decay step\<close>

text \<open>
  A step on a value from -1 to 2 towards a target from 0 to 1, with a decay constant of at
  least 1: no operation overflows, and the three roundings together move the result by at
  most \<open>1 / 2 ^ 22\<close> from the exact \<open>v + (t - v) / k\<close>.
\<close>

lemma decay_step_result:
  assumes "- 1 \<le> v" and "v \<le> 2" and "0 \<le> t" and "t \<le> 1" and "1 \<le> k"
  shows "decay_step k t v = Inr (decay_value k t v)"
    and "\<bar>decay_value k t v - (v + (t - v) / k)\<bar> \<le> 1 / 2 ^ 22"
proof -
  let ?d = "binary32 (t - v)"
  let ?q = "binary32 (?d / k)"
  have x: "\<bar>t - v\<bar> \<le> 2 ^ 1" using assms by simp
  note d1 = to_float_finite [OF x] binary32_abs_le [OF x] binary32_error [OF x]
  have "\<bar>?d / k\<bar> = \<bar>?d\<bar> / k" using assms(5) by simp
  also have "\<dots> \<le> \<bar>?d\<bar> / 1" using assms(5) by (intro divide_left_mono) simp_all
  finally have y: "\<bar>?d / k\<bar> \<le> 2 ^ 1" using d1(2) by simp
  note q1 = to_float_finite [OF y] binary32_abs_le [OF y] binary32_error [OF y]
  have z: "\<bar>v + ?q\<bar> \<le> 2 ^ 2" using assms(1,2) q1(2) by simp
  note r1 = to_float_finite [OF z] binary32_error [OF z]
  show "decay_step k t v = Inr (decay_value k t v)"
    by (simp add: decay_step_def decay_value_def d1(1) q1(1) r1(1))
  have "\<bar>?d / k - (t - v) / k\<bar> = \<bar>?d - (t - v)\<bar> / k"
    using assms(5) by (simp add: diff_divide_distrib [symmetric])
  also have "\<dots> \<le> \<bar>?d - (t - v)\<bar> / 1" using assms(5) by (intro divide_left_mono) simp_all
  finally have e1: "\<bar>?d / k - (t - v) / k\<bar> \<le> 2 ^ 1 / 2 ^ 25" using d1(3) by simp
  have "\<bar>binary32 (v + ?q) - (v + (t - v) / k)\<bar>
      \<le> \<bar>binary32 (v + ?q) - (v + ?q)\<bar> + \<bar>?q - ?d / k\<bar> + \<bar>?d / k - (t - v) / k\<bar>"
    by linarith
  also have "\<dots> \<le> 2 ^ 2 / 2 ^ 25 + 2 ^ 1 / 2 ^ 25 + 2 ^ 1 / 2 ^ 25"
    using r1(2) q1(3) e1 by linarith
  also have "\<dots> = 1 / 2 ^ 22" by simp
  finally show "\<bar>decay_value k t v - (v + (t - v) / k)\<bar> \<le> 1 / 2 ^ 22"
    by (simp only: decay_value_def)
qed

text \<open>The exact step lies between the value and the target, at least \<open>1 / k\<close> inside.\<close>

lemma exact_step_range:
  fixes v t k :: real
  assumes "- 1 \<le> v" and "v \<le> 2" and "0 \<le> t" and "t \<le> 1" and "1 \<le> k"
  shows "- 1 + 1 / k \<le> v + (t - v) / k" and "v + (t - v) / k \<le> 2 - 1 / k"
proof -
  define c where "c = 1 / k"
  have c: "0 \<le> c" "c \<le> 1" using assms(5) by (simp_all add: c_def)
  have s: "v + (t - v) / k = v + (t - v) * c" by (simp add: c_def)
  have "0 \<le> (v + 1) * (1 - c) + t * c" using assms c by simp
  then have "- 1 + c \<le> v + (t - v) * c" by (simp add: algebra_simps)
  then show "- 1 + 1 / k \<le> v + (t - v) / k" by (simp only: s) (simp add: c_def)
  have "0 \<le> (2 - v) * (1 - c) + (1 - t) * c" using assms c by simp
  then have "v + (t - v) * c \<le> 2 - c" by (simp add: algebra_simps)
  then show "v + (t - v) / k \<le> 2 - 1 / k" by (simp only: s) (simp add: c_def)
qed

lemma decay_value_range:
  assumes "- 1 \<le> v" and "v \<le> 2" and "0 \<le> t" and "t \<le> 1" and "1 \<le> k" and "k \<le> 2 ^ 22"
  shows "- 1 \<le> decay_value k t v \<and> decay_value k t v \<le> 2"
proof -
  note e = decay_step_result(2) [OF assms(1-5)]
  note x = exact_step_range [OF assms(1-5)]
  have "1 / 2 ^ 22 \<le> 1 / k"
    using assms(5,6) by (intro divide_left_mono) simp_all
  with e x show ?thesis by linarith
qed

text \<open>The distance to the target shrinks by the factor \<open>1 - 1 / k\<close>, up to the rounding.\<close>

lemma decay_value_distance:
  assumes "- 1 \<le> v" and "v \<le> 2" and "0 \<le> t" and "t \<le> 1" and "1 \<le> k"
  shows "\<bar>decay_value k t v - t\<bar> \<le> (1 - 1 / k) * \<bar>v - t\<bar> + 1 / 2 ^ 22"
proof -
  note e = decay_step_result(2) [OF assms]
  have q: "0 \<le> 1 - 1 / k" using assms(5) by simp
  have "v + (t - v) / k - t = (1 - 1 / k) * (v - t)"
    using assms(5) by (simp add: field_simps)
  then have "\<bar>v + (t - v) / k - t\<bar> = (1 - 1 / k) * \<bar>v - t\<bar>"
    using q by (simp only: abs_mult abs_of_nonneg)
  with e show ?thesis by linarith
qed

lemma contraction_bound:
  fixes e :: "nat \<Rightarrow> real" and k eps :: real
  assumes "1 \<le> k" and "\<And>n. e (Suc n) \<le> (1 - 1 / k) * e n + eps"
  shows "e n \<le> (1 - 1 / k) ^ n * e 0 + k * eps * (1 - (1 - 1 / k) ^ n)"
proof (induction n)
  case 0
  show ?case by simp
next
  case (Suc n)
  define q where "q = 1 - 1 / k"
  have q: "0 \<le> q" using assms(1) by (simp add: q_def)
  have keps: "k * eps * (1 - q) = eps" using assms(1) by (simp add: q_def)
  have "e (Suc n) \<le> q * e n + eps" using assms(2) [of n] by (simp only: q_def)
  also have "\<dots> \<le> q * (q ^ n * e 0 + k * eps * (1 - q ^ n)) + eps"
    using Suc q by (simp add: q_def mult_left_mono)
  also have "\<dots> = q ^ Suc n * e 0 + k * eps * (q - q ^ Suc n) + k * eps * (1 - q)"
    by (simp only: keps) (simp add: algebra_simps)
  also have "\<dots> = q ^ Suc n * e 0 + k * eps * (1 - q ^ Suc n)"
    by (simp add: algebra_simps)
  finally show ?case by (simp only: q_def)
qed

lemma update_step:
  assumes w: "unat which < length (led_map st)" and k: "1 \<le> global_decay st"
    and v: "\<forall>ch. - 1 \<le> value_of ch (led_map st ! unat which) \<and> value_of ch (led_map st ! unat which) \<le> 2"
    and t: "\<forall>ch. 0 \<le> target_of ch i r g b \<and> target_of ch i r g b \<le> 1"
  shows "\<exists>st'. update which i r g b st = Inr st'
    \<and> global_decay st' = global_decay st
    \<and> length (led_map st') = length (led_map st)
    \<and> (\<forall>ch. value_of ch (led_map st' ! unat which) =
          decay_value (global_decay st) (target_of ch i r g b) (value_of ch (led_map st ! unat which)))
    \<and> (\<forall>j. j \<noteq> unat which \<longrightarrow> led_map st' ! j = led_map st ! j)
    \<and> led_map st' = (led_map st)[unat which := led_map st' ! unat which]
    \<and> offsets_of (led_map st' ! unat which) = offsets_of (led_map st ! unat which)
    \<and> st' = st\<lparr>led_map := led_map st'\<rparr>"
proof -
  let ?l = "led_map st ! unat which"
  let ?k = "global_decay st"
  let ?l' = "?l\<lparr>value_i := decay_value ?k i (value_i ?l), value_r := decay_value ?k r (value_r ?l),
     value_g := decay_value ?k g (value_g ?l), value_b := decay_value ?k b (value_b ?l)\<rparr>"
  let ?st' = "st\<lparr>led_map := (led_map st)[unat which := ?l']\<rparr>"
  have s: "decay_step ?k (target_of ch i r g b) (value_of ch ?l)
      = Inr (decay_value ?k (target_of ch i r g b) (value_of ch ?l))" for ch
    using v t k by (intro decay_step_result(1)) simp_all
  have k0: "?k \<noteq> 0" using k by simp
  have res: "update which i r g b st = Inr ?st'"
    using w k0 s [of Intensity] s [of Red] s [of Green] s [of Blue]
    by (simp add: update_def Let_def)
  have vals: "value_of ch (led_map ?st' ! unat which) =
      decay_value ?k (target_of ch i r g b) (value_of ch ?l)" for ch
    using w by (cases ch) simp_all
  show ?thesis
    using res vals w by (intro exI [of _ ?st']) (simp add: offsets_of_def)
qed

lemma update_repeat_values:
  assumes "unat which < length (led_map st)" and "1 \<le> global_decay st" and "global_decay st \<le> 2 ^ 22"
    and "\<forall>ch. - 1 \<le> value_of ch (led_map st ! unat which) \<and> value_of ch (led_map st ! unat which) \<le> 2"
    and "\<forall>ch. 0 \<le> target_of ch i r g b \<and> target_of ch i r g b \<le> 1"
  shows "\<exists>st'. update_repeat n which i r g b st = Inr st'
    \<and> (\<forall>ch. value_of ch (led_map st' ! unat which) =
          (decay_value (global_decay st) (target_of ch i r g b) ^^ n)
            (value_of ch (led_map st ! unat which)))"
  using assms(1-4)
proof (induction n arbitrary: st)
  case 0
  then show ?case by simp
next
  case (Suc n)
  let ?k = "global_decay st"
  from update_step [OF Suc.prems(1,2,4) assms(5)]
  obtain st1 where up: "update which i r g b st = Inr st1"
    and k1: "global_decay st1 = ?k"
    and len1: "length (led_map st1) = length (led_map st)"
    and v1: "\<And>ch. value_of ch (led_map st1 ! unat which) =
          decay_value ?k (target_of ch i r g b) (value_of ch (led_map st ! unat which))"
    by auto
  have r1: "\<forall>ch. - 1 \<le> value_of ch (led_map st1 ! unat which) \<and> value_of ch (led_map st1 ! unat which) \<le> 2"
    unfolding v1 using Suc.prems(2,3,4) assms(5) by (auto intro!: decay_value_range [THEN conjunct1] decay_value_range [THEN conjunct2])
  from Suc.IH [of st1] Suc.prems(1,2,3) k1 len1 r1
  obtain st' where rep: "update_repeat n which i r g b st1 = Inr st'"
    and vn: "\<And>ch. value_of ch (led_map st' ! unat which) =
          (decay_value ?k (target_of ch i r g b) ^^ n) (value_of ch (led_map st1 ! unat which))"
    by auto
  have "value_of ch (led_map st' ! unat which) =
      (decay_value ?k (target_of ch i r g b) ^^ Suc n) (value_of ch (led_map st ! unat which))" for ch
    unfolding vn v1 by (simp add: funpow_swap1)
  with up rep show ?case by simp
qed

text \<open>
  The increment of a decay step towards a target at the distance \<open>x\<close> above the value,
  \<open>x\<close> being the difference of two \<^verbatim>\<open>float\<close>s: it is not negative and not more than
  \<open>x\<close>, when the decay constant is at least \<open>1 + 1 / 2 ^ 22\<close>.
\<close>

lemma decay_increment:
  assumes x0: "0 \<le> x" and grid: "x = of_int m * 2 powi (- 149)" and k: "1 + 1 / 2 ^ 22 \<le> k"
  shows "0 \<le> binary32 (binary32 x / k)" and "binary32 (binary32 x / k) \<le> x"
proof -
  have k1: "1 \<le> k" and k0: "0 < k" using k by simp_all
  have d0: "0 \<le> binary32 x" using x0 by (rule binary32_nonneg)
  then have y0: "0 \<le> binary32 x / k" using k0 by simp
  then show "0 \<le> binary32 (binary32 x / k)" by (rule binary32_nonneg)
  show "binary32 (binary32 x / k) \<le> x"
  proof (cases "x < 2 powi (- 125)")
    case True
    have "float_round 23 (- 126) 253 x = x"
      using grid True x0 by (intro float_round_small [of x m]) simp_all
    then have e: "binary32 x = x" by (simp only: binary32_def)
    have "x / k \<le> x / 1" using x0 k1 by (intro divide_left_mono) simp_all
    then have "binary32 (x / k) \<le> binary32 x" by (intro binary32_mono) simp
    then show ?thesis by (simp only: e)
  next
    case False
    then have big: "2 powi (- 125) \<le> x" by simp
    have "(2 :: real) powi (- 126) \<le> 2 powi (- 125)" by (intro power_int_increasing) simp_all
    with big x0 have "2 powi (- 126) \<le> \<bar>x\<bar>" by simp
    from float_round_relative [OF this, of 23 253]
    have "\<bar>binary32 x - x\<bar> \<le> x / 2 ^ 24" using x0 by (simp add: binary32_def)
    then have "binary32 x \<le> x + x / 2 ^ 24" by linarith
    then have d1: "binary32 x \<le> x * (1 + 1 / 2 ^ 24)" by (simp add: algebra_simps)
    let ?y = "binary32 x / k"
    show ?thesis
    proof (cases "?y < 2 powi (- 126)")
      case True
      have "float_round 23 (- 126) 253 (2 powi (- 126)) = 2 powi (- 126)"
      proof (rule float_round_small [of _ "2 ^ 23"])
        show "(2 :: real) powi (- 126) = of_int (2 ^ 23) * 2 powi (- 126 - int 23)"
          using powi_split [of "- 126" 23] by simp
        show "\<bar>(2 :: real) powi (- 126)\<bar> < 2 powi (- 126 + 1)"
          by (simp add: power_int_strict_increasing)
      qed
      then have e: "binary32 (2 powi (- 126)) = 2 powi (- 126)" by (simp only: binary32_def)
      from True have "binary32 ?y \<le> binary32 (2 powi (- 126))" by (intro binary32_mono) simp
      also have "\<dots> = 2 powi (- 126)" by (rule e)
      also have "\<dots> \<le> 2 powi (- 125)" by (intro power_int_increasing) simp_all
      also have "\<dots> \<le> x" by (rule big)
      finally show ?thesis .
    next
      case False
      then have "2 powi (- 126) \<le> ?y" by (simp only: not_less)
      with y0 have "2 powi (- 126) \<le> \<bar>?y\<bar>" by (simp only: abs_of_nonneg)
      from float_round_relative [OF this, of 23 253]
      have "\<bar>binary32 ?y - ?y\<bar> \<le> ?y / 2 ^ 24" using y0 by (simp add: binary32_def)
      then have "binary32 ?y \<le> ?y + ?y / 2 ^ 24" by linarith
      then have d2: "binary32 ?y \<le> ?y * (1 + 1 / 2 ^ 24)" by (simp add: algebra_simps)
      have c: "(1 + 1 / 2 ^ 24) * (1 + 1 / 2 ^ 24) \<le> (1 + 1 / 2 ^ 22 :: real)" by simp
      have "?y \<le> x * (1 + 1 / 2 ^ 24) / k"
        using d1 k0 by (intro divide_right_mono) simp_all
      then have "?y * (1 + 1 / 2 ^ 24) \<le> x * (1 + 1 / 2 ^ 24) / k * (1 + 1 / 2 ^ 24)"
        by (intro mult_right_mono) simp_all
      also have "\<dots> = x * ((1 + 1 / 2 ^ 24) * (1 + 1 / 2 ^ 24)) / k" by simp
      also have "\<dots> \<le> x * k / k"
        using c k x0 k0 by (intro divide_right_mono mult_left_mono) simp_all
      also have "\<dots> = x" using k0 by simp
      finally show ?thesis using d2 by linarith
    qed
  qed
qed

text \<open>
  A decay step on a \<^verbatim>\<open>float\<close> towards a \<^verbatim>\<open>float\<close>, with a decay constant of at least
  \<open>1 + 1 / 2 ^ 22\<close>, moves the value towards the target or leaves it, and never past it.
\<close>

lemma decay_value_between:
  assumes fv: "binary32 v = v" and ft: "binary32 t = t" and k: "1 + 1 / 2 ^ 22 \<le> k"
  shows "v \<le> t \<Longrightarrow> v \<le> decay_value k t v \<and> decay_value k t v \<le> t"
    and "t \<le> v \<Longrightarrow> t \<le> decay_value k t v \<and> decay_value k t v \<le> v"
proof -
  from float_round_multiple [of 23 "- 126" 253 v] fv
  obtain mv where mv: "v = of_int mv * 2 powi (- 149)" by (auto simp: binary32_def)
  from float_round_multiple [of 23 "- 126" 253 t] ft
  obtain mt where mt: "t = of_int mt * 2 powi (- 149)" by (auto simp: binary32_def)
  have up: "t - v = of_int (mt - mv) * 2 powi (- 149)"
    by (subst mt, subst mv) (simp add: algebra_simps)
  have down: "v - t = of_int (mv - mt) * 2 powi (- 149)"
    by (subst mt, subst mv) (simp add: algebra_simps)
  show "v \<le> decay_value k t v \<and> decay_value k t v \<le> t" if "v \<le> t"
  proof -
    from that have "0 \<le> t - v" by simp
    note d = decay_increment [OF this up k]
    have "binary32 v \<le> binary32 (v + binary32 (binary32 (t - v) / k))"
      using d(1) by (intro binary32_mono) simp
    moreover have "binary32 (v + binary32 (binary32 (t - v) / k)) \<le> binary32 t"
      using d(2) by (intro binary32_mono) simp
    ultimately show ?thesis by (simp only: decay_value_def fv ft)
  qed
  show "t \<le> decay_value k t v \<and> decay_value k t v \<le> v" if "t \<le> v"
  proof -
    from that have "0 \<le> v - t" by simp
    note d = decay_increment [OF this down k]
    have "binary32 (t - v) = - binary32 (v - t)"
      using binary32_neg [of "v - t"] by simp
    then have "binary32 (binary32 (t - v) / k) = binary32 (- (binary32 (v - t) / k))"
      by simp
    then have e: "binary32 (binary32 (t - v) / k) = - binary32 (binary32 (v - t) / k)"
      by (simp only: binary32_neg)
    have "binary32 t \<le> binary32 (v + binary32 (binary32 (t - v) / k))"
      unfolding e using d(2) by (intro binary32_mono) simp
    moreover have "binary32 (v + binary32 (binary32 (t - v) / k)) \<le> binary32 v"
      unfolding e using d(1) by (intro binary32_mono) simp
    ultimately show ?thesis by (simp only: decay_value_def fv ft)
  qed
qed

text \<open>
  Claim C3. For a light of the array with its four values between -1 and 2 (the data model
  has them between 0 and 1), targets between 0 and 1 and a decay constant \<open>k\<close> from 1 to
  \<open>2 ^ 22\<close>, every pass of \<open>update\<close> returns and replaces each value by
  \<open>value + (target - value) / k\<close> as single precision computes it, the subtraction, the
  division and the addition each rounded. The result is within \<open>1 / 2 ^ 22\<close> of the exact
  one, so each pass multiplies the distance to the target by \<open>1 - 1 / k\<close> up to that
  error, and after \<open>n\<close> passes with an unchanging target the distance is at most
  \<open>(1 - 1 / k) ^ n\<close> times the initial one plus \<open>k / 2 ^ 22\<close>. When the values and
  the targets are \<^verbatim>\<open>float\<close>s and \<open>k\<close> is at least \<open>1 + 1 / 2 ^ 22\<close>, so for every
  \<open>k\<close> from 2 on, the values \<open>v n\<close> after \<open>n\<close> passes move towards the target and never
  past it: a value below the target does not fall and stays below or at it, a value above
  does not rise and stays above or at it. They need not reach the target, and for
  \<open>k = 1\<close> the first pass lands within \<open>1 / 2 ^ 22\<close> of the target, not always on it.
\<close>

theorem decay_converges:
  assumes "unat which < length (led_map st)" and "global_decay st = k" and "1 \<le> k" and "k \<le> 2 ^ 22"
    and "\<forall>ch. - 1 \<le> value_of ch (led_map st ! unat which) \<and> value_of ch (led_map st ! unat which) \<le> 2"
    and "\<forall>ch. 0 \<le> target_of ch i r g b \<and> target_of ch i r g b \<le> 1"
  shows "\<exists>v :: nat \<Rightarrow> channel \<Rightarrow> real.
      (\<forall>n. \<exists>st'. update_repeat n which i r g b st = Inr st'
          \<and> (\<forall>ch. value_of ch (led_map st' ! unat which) = v n ch))
    \<and> (\<forall>ch. v 0 ch = value_of ch (led_map st ! unat which))
    \<and> (\<forall>n ch. v (Suc n) ch =
          binary32 (v n ch + binary32 (binary32 (target_of ch i r g b - v n ch) / k)))
    \<and> (\<forall>n ch. \<bar>v (Suc n) ch - (v n ch + (target_of ch i r g b - v n ch) / k)\<bar> \<le> 1 / 2 ^ 22)
    \<and> (\<forall>n ch. \<bar>v (Suc n) ch - target_of ch i r g b\<bar>
          \<le> (1 - 1 / k) * \<bar>v n ch - target_of ch i r g b\<bar> + 1 / 2 ^ 22)
    \<and> (\<forall>n ch. \<bar>v n ch - target_of ch i r g b\<bar>
          \<le> (1 - 1 / k) ^ n * \<bar>v 0 ch - target_of ch i r g b\<bar> + k / 2 ^ 22)
    \<and> ((\<forall>ch. binary32 (value_of ch (led_map st ! unat which)) = value_of ch (led_map st ! unat which)
            \<and> binary32 (target_of ch i r g b) = target_of ch i r g b)
         \<and> 1 + 1 / 2 ^ 22 \<le> k \<longrightarrow>
        (\<forall>n ch. (v n ch \<le> target_of ch i r g b \<longrightarrow>
                   v n ch \<le> v (Suc n) ch \<and> v (Suc n) ch \<le> target_of ch i r g b)
               \<and> (target_of ch i r g b \<le> v n ch \<longrightarrow>
                   target_of ch i r g b \<le> v (Suc n) ch \<and> v (Suc n) ch \<le> v n ch)))
    \<and> (k = 1 \<longrightarrow> (\<forall>n ch. \<bar>v (Suc n) ch - target_of ch i r g b\<bar> \<le> 1 / 2 ^ 22))"
proof -
  define v where "v = (\<lambda>n ch. (decay_value k (target_of ch i r g b) ^^ n)
      (value_of ch (led_map st ! unat which)))"
  have t: "0 \<le> target_of ch i r g b" "target_of ch i r g b \<le> 1" for ch
    using assms(6) by simp_all
  have v0: "v 0 ch = value_of ch (led_map st ! unat which)" for ch
    by (simp add: v_def)
  have step: "v (Suc n) ch = decay_value k (target_of ch i r g b) (v n ch)" for n ch
    by (simp add: v_def)
  have rng: "- 1 \<le> v n ch \<and> v n ch \<le> 2" for n ch
  proof (induction n)
    case 0
    show ?case using assms(5) by (simp add: v0)
  next
    case (Suc n)
    then show ?case
      unfolding step using t assms(3,4) by (intro decay_value_range) simp_all
  qed
  have run: "\<exists>st'. update_repeat n which i r g b st = Inr st'
      \<and> (\<forall>ch. value_of ch (led_map st' ! unat which) = v n ch)" for n
    using update_repeat_values [OF assms(1) _ _ assms(5,6), of n] assms(2,3,4)
    by (simp add: v_def)
  have err: "\<bar>v (Suc n) ch - (v n ch + (target_of ch i r g b - v n ch) / k)\<bar> \<le> 1 / 2 ^ 22" for n ch
    unfolding step using rng [of n ch] t assms(3) by (intro decay_step_result(2)) simp_all
  have dist: "\<bar>v (Suc n) ch - target_of ch i r g b\<bar>
      \<le> (1 - 1 / k) * \<bar>v n ch - target_of ch i r g b\<bar> + 1 / 2 ^ 22" for n ch
    unfolding step using rng [of n ch] t assms(3) by (intro decay_value_distance) simp_all
  have total: "\<bar>v n ch - target_of ch i r g b\<bar>
      \<le> (1 - 1 / k) ^ n * \<bar>v 0 ch - target_of ch i r g b\<bar> + k / 2 ^ 22" for n ch
  proof -
    have q: "0 \<le> (1 - 1 / k) ^ n" using assms(3) by simp
    from contraction_bound [of k "\<lambda>n. \<bar>v n ch - target_of ch i r g b\<bar>" "1 / 2 ^ 22" n, OF assms(3) dist]
    have "\<bar>v n ch - target_of ch i r g b\<bar>
        \<le> (1 - 1 / k) ^ n * \<bar>v 0 ch - target_of ch i r g b\<bar>
          + k * (1 / 2 ^ 22) * (1 - (1 - 1 / k) ^ n)" .
    also have "k * (1 / 2 ^ 22) * (1 - (1 - 1 / k) ^ n) \<le> k * (1 / 2 ^ 22) * 1"
      using q assms(3) by (intro mult_left_mono) simp_all
    finally show ?thesis by simp
  qed
  have one: "k = 1 \<longrightarrow> (\<forall>n ch. \<bar>v (Suc n) ch - target_of ch i r g b\<bar> \<le> 1 / 2 ^ 22)"
  proof
    assume k1: "k = 1"
    show "\<forall>n ch. \<bar>v (Suc n) ch - target_of ch i r g b\<bar> \<le> 1 / 2 ^ 22"
      using dist unfolding k1 by simp
  qed
  have form: "v (Suc n) ch = binary32 (v n ch + binary32 (binary32 (target_of ch i r g b - v n ch) / k))"
    for n ch
    by (simp only: step decay_value_def)
  have between: "(\<forall>ch. binary32 (value_of ch (led_map st ! unat which)) = value_of ch (led_map st ! unat which)
            \<and> binary32 (target_of ch i r g b) = target_of ch i r g b)
         \<and> 1 + 1 / 2 ^ 22 \<le> k \<longrightarrow>
        (\<forall>n ch. (v n ch \<le> target_of ch i r g b \<longrightarrow>
                   v n ch \<le> v (Suc n) ch \<and> v (Suc n) ch \<le> target_of ch i r g b)
               \<and> (target_of ch i r g b \<le> v n ch \<longrightarrow>
                   target_of ch i r g b \<le> v (Suc n) ch \<and> v (Suc n) ch \<le> v n ch))"
  proof (intro impI allI, elim conjE)
    fix n ch
    assume fl: "\<forall>ch. binary32 (value_of ch (led_map st ! unat which)) = value_of ch (led_map st ! unat which)
            \<and> binary32 (target_of ch i r g b) = target_of ch i r g b"
      and kk: "1 + 1 / 2 ^ 22 \<le> k"
    have fv: "binary32 (v n ch) = v n ch"
    proof (cases n)
      case 0
      with fl show ?thesis by (simp add: v0)
    next
      case (Suc m)
      show ?thesis unfolding Suc form by (rule binary32_idem)
    qed
    from fl have ft: "binary32 (target_of ch i r g b) = target_of ch i r g b" by simp
    from decay_value_between [OF fv ft kk]
    show "(v n ch \<le> target_of ch i r g b \<longrightarrow>
                   v n ch \<le> v (Suc n) ch \<and> v (Suc n) ch \<le> target_of ch i r g b)
               \<and> (target_of ch i r g b \<le> v n ch \<longrightarrow>
                   target_of ch i r g b \<le> v (Suc n) ch \<and> v (Suc n) ch \<le> v n ch)"
      unfolding step by blast
  qed
  show ?thesis
    using run v0 form err dist total between one by (intro exI [of _ v]) blast
qed

lemma third: "binary32 (1 / 3) = 11184811 / 33554432"
  by (subst binary32_at [where e = "- 2"]) (simp_all add: round_even_def)

lemma third_again: "binary32 (11184811 / 33554432) = 11184811 / 33554432"
  by (subst binary32_at [where e = "- 2"]) (simp_all add: round_even_def)

lemma binary32_one: "binary32 1 = 1"
  using binary32_of_nat [of 1] by simp

lemma binary32_half: "binary32 (1 / 2) = 1 / 2"
  by (subst binary32_at [where e = "- 1"]) (simp_all add: round_even_def)

theorem decay_converges_witness:
  "unat (3 :: u8) < length (led_map (globals_init None))
   \<and> global_decay (globals_init None) = 3
   \<and> (\<exists>v :: nat \<Rightarrow> channel \<Rightarrow> real.
        (\<forall>n. \<exists>st'. update_repeat n 3 1 (1 / 2) 0 0 (globals_init None) = Inr st'
           \<and> (\<forall>ch. value_of ch (led_map st' ! 3) = v n ch))
        \<and> v 0 Intensity = 0
        \<and> v (Suc 0) Intensity = 11184811 / 33554432
        \<and> (\<forall>n. \<bar>v n Intensity - 1\<bar> \<le> (2 / 3) ^ n + 3 / 2 ^ 22)
        \<and> (\<forall>n. v n Intensity \<le> v (Suc n) Intensity \<and> v (Suc n) Intensity \<le> 1))"
proof -
  have h: "unat (3 :: u8) < length (led_map (globals_init None))"
      "global_decay (globals_init None) = 3" "(1 :: real) \<le> 3" "(3 :: real) \<le> 2 ^ 22"
    by (simp_all add: globals_init_def led_map_init_def)
  have r: "\<forall>ch. - 1 \<le> value_of ch (led_map (globals_init None) ! unat (3 :: u8))
      \<and> value_of ch (led_map (globals_init None) ! unat (3 :: u8)) \<le> 2"
  proof
    fix ch
    show "- 1 \<le> value_of ch (led_map (globals_init None) ! unat (3 :: u8))
      \<and> value_of ch (led_map (globals_init None) ! unat (3 :: u8)) \<le> 2"
      by (cases ch) (simp_all add: globals_init_def led_map_init_def LED_MAP_def)
  qed
  have t: "\<forall>ch. 0 \<le> target_of ch 1 (1 / 2) 0 0 \<and> target_of ch 1 (1 / 2) 0 0 \<le> 1"
  proof
    fix ch
    show "0 \<le> target_of ch 1 (1 / 2) 0 0 \<and> target_of ch 1 (1 / 2) 0 0 \<le> 1"
      by (cases ch) simp_all
  qed
  have v0: "value_of Intensity (led_map (globals_init None) ! unat (3 :: u8)) = 0"
    by (simp add: globals_init_def led_map_init_def LED_MAP_def)
  from decay_converges [OF h r t] obtain v :: "nat \<Rightarrow> channel \<Rightarrow> real" where
    v: "\<forall>n. \<exists>st'. update_repeat n 3 1 (1 / 2) 0 0 (globals_init None) = Inr st'
          \<and> (\<forall>ch. value_of ch (led_map st' ! unat (3 :: u8)) = v n ch)"
      "\<forall>ch. v 0 ch = value_of ch (led_map (globals_init None) ! unat (3 :: u8))"
      "\<forall>n ch. v (Suc n) ch =
          binary32 (v n ch + binary32 (binary32 (target_of ch 1 (1 / 2) 0 0 - v n ch) / 3))"
      "\<forall>n ch. \<bar>v n ch - target_of ch 1 (1 / 2) 0 0\<bar>
          \<le> (1 - 1 / 3) ^ n * \<bar>v 0 ch - target_of ch 1 (1 / 2) 0 0\<bar> + 3 / 2 ^ 22"
      "(\<forall>ch. binary32 (value_of ch (led_map (globals_init None) ! unat (3 :: u8)))
              = value_of ch (led_map (globals_init None) ! unat (3 :: u8))
            \<and> binary32 (target_of ch 1 (1 / 2) 0 0) = target_of ch 1 (1 / 2) 0 0)
         \<and> 1 + 1 / 2 ^ 22 \<le> (3 :: real) \<longrightarrow>
        (\<forall>n ch. (v n ch \<le> target_of ch 1 (1 / 2) 0 0 \<longrightarrow>
                   v n ch \<le> v (Suc n) ch \<and> v (Suc n) ch \<le> target_of ch 1 (1 / 2) 0 0)
               \<and> (target_of ch 1 (1 / 2) 0 0 \<le> v n ch \<longrightarrow>
                   target_of ch 1 (1 / 2) 0 0 \<le> v (Suc n) ch \<and> v (Suc n) ch \<le> v n ch))"
    by blast
  have fl: "\<forall>ch. binary32 (value_of ch (led_map (globals_init None) ! unat (3 :: u8)))
              = value_of ch (led_map (globals_init None) ! unat (3 :: u8))
            \<and> binary32 (target_of ch 1 (1 / 2) 0 0) = target_of ch 1 (1 / 2) 0 0"
  proof
    fix ch
    show "binary32 (value_of ch (led_map (globals_init None) ! unat (3 :: u8)))
              = value_of ch (led_map (globals_init None) ! unat (3 :: u8))
            \<and> binary32 (target_of ch 1 (1 / 2) 0 0) = target_of ch 1 (1 / 2) 0 0"
      by (cases ch)
         (simp_all add: globals_init_def led_map_init_def LED_MAP_def binary32_one binary32_half)
  qed
  have k3: "1 + 1 / 2 ^ 22 \<le> (3 :: real)" by simp
  from v(5) fl k3 have m: "\<forall>n ch. (v n ch \<le> target_of ch 1 (1 / 2) 0 0 \<longrightarrow>
                   v n ch \<le> v (Suc n) ch \<and> v (Suc n) ch \<le> target_of ch 1 (1 / 2) 0 0)
               \<and> (target_of ch 1 (1 / 2) 0 0 \<le> v n ch \<longrightarrow>
                   target_of ch 1 (1 / 2) 0 0 \<le> v (Suc n) ch \<and> v (Suc n) ch \<le> v n ch)"
    by blast
  have up: "v n Intensity \<le> 1 \<Longrightarrow> v n Intensity \<le> v (Suc n) Intensity \<and> v (Suc n) Intensity \<le> 1"
    for n
    using m [rule_format, of n Intensity] by simp
  have a: "v 0 Intensity = 0" using v(2) v0 by simp
  have "v (Suc 0) Intensity = binary32 (0 + binary32 (binary32 (1 - 0) / 3))"
    using v(3) a by simp
  then have b: "v (Suc 0) Intensity = 11184811 / 33554432"
    by (simp add: binary32_one third third_again)
  have c: "\<bar>v n Intensity - 1\<bar> \<le> (2 / 3) ^ n + 3 / 2 ^ 22" for n
    using v(4) [rule_format, of n Intensity] a by simp
  have le1: "v n Intensity \<le> 1" for n
  proof (induction n)
    case 0
    show ?case by (simp add: a)
  next
    case (Suc n)
    with up [of n] show ?case by simp
  qed
  have d: "v n Intensity \<le> v (Suc n) Intensity \<and> v (Suc n) Intensity \<le> 1" for n
    using up [OF le1 [of n]] .
  from v(1) a b c d have "\<exists>v :: nat \<Rightarrow> channel \<Rightarrow> real.
        (\<forall>n. \<exists>st'. update_repeat n 3 1 (1 / 2) 0 0 (globals_init None) = Inr st'
           \<and> (\<forall>ch. value_of ch (led_map st' ! 3) = v n ch))
        \<and> v 0 Intensity = 0
        \<and> v (Suc 0) Intensity = 11184811 / 33554432
        \<and> (\<forall>n. \<bar>v n Intensity - 1\<bar> \<le> (2 / 3) ^ n + 3 / 2 ^ 22)
        \<and> (\<forall>n. v n Intensity \<le> v (Suc n) Intensity \<and> v (Suc n) Intensity \<le> 1)"
    by (intro exI [of _ v]) simp
  with h(1,2) show ?thesis by blast
qed

text \<open>
  The claim as the specification states it fails twice. With a decay constant of 1, a
  value of 1 and the target 13421773 / 67108864 (the \<^verbatim>\<open>float\<close> nearest to 0.2), one pass
  gives 3355443 / 16777216: not the target, and beyond it. With the initial decay constant
  3 and the target 1, the value 16777215 / 16777216 is left as it is by every pass, so it
  never reaches the target.
\<close>

lemma decay_step_past:
  "decay_step 1 (13421773 / 67108864) 1 = Inr (3355443 / 16777216)"
proof -
  have a: "binary32 (- (53687091 / 67108864)) = - (13421773 / 16777216)"
    by (subst binary32_at [where e = "- 1"]) (simp_all add: round_even_def)
  have b: "binary32 (- (13421773 / 16777216)) = - (13421773 / 16777216)"
    by (subst binary32_at [where e = "- 1"]) (simp_all add: round_even_def)
  have c: "binary32 (3355443 / 16777216) = 3355443 / 16777216"
    by (subst binary32_at [where e = "- 3"]) (simp_all add: round_even_def)
  show ?thesis
    by (simp add: decay_step_def to_float_def a b c)
qed

lemma decay_step_stall:
  "decay_step 3 1 (16777215 / 16777216) = Inr (16777215 / 16777216)"
proof -
  have a: "binary32 (1 / 16777216) = 1 / 16777216"
    by (subst binary32_at [where e = "- 24"]) (simp_all add: round_even_def)
  have b: "binary32 (1 / 50331648) = 11184811 / 562949953421312"
    by (subst binary32_at [where e = "- 26"]) (simp_all add: round_even_def)
  have c: "binary32 (562949931051691 / 562949953421312) = 16777215 / 16777216"
    by (subst binary32_at [where e = "- 1"]) (simp_all add: round_even_def)
  show ?thesis
    by (simp add: decay_step_def to_float_def a b c)
qed

theorem decay_exact_counterexample:
  "(\<exists>st'. update 0 (13421773 / 67108864) (13421773 / 67108864) (13421773 / 67108864)
             (13421773 / 67108864)
             ((globals_init None)\<lparr>global_decay := 1, led_map := led_map_init[0 :=
                (LED_MAP 99)\<lparr>value_i := 1, value_r := 1, value_g := 1, value_b := 1\<rparr>]\<rparr>) = Inr st'
        \<and> value_i (led_map st' ! 0) = 3355443 / 16777216
        \<and> value_i (led_map st' ! 0) < 13421773 / 67108864)
   \<and> global_decay (globals_init None) = 3
   \<and> (\<forall>n. update_repeat n 0 1 1 1 1
        ((globals_init None)\<lparr>led_map := led_map_init[0 :=
            (LED_MAP 99)\<lparr>value_i := 16777215 / 16777216, value_r := 16777215 / 16777216,
               value_g := 16777215 / 16777216, value_b := 16777215 / 16777216\<rparr>]\<rparr>)
      = Inr ((globals_init None)\<lparr>led_map := led_map_init[0 :=
            (LED_MAP 99)\<lparr>value_i := 16777215 / 16777216, value_r := 16777215 / 16777216,
               value_g := 16777215 / 16777216, value_b := 16777215 / 16777216\<rparr>]\<rparr>))"
proof -
  let ?g1 = "(globals_init None)\<lparr>global_decay := 1, led_map := led_map_init[0 :=
                (LED_MAP 99)\<lparr>value_i := 1, value_r := 1, value_g := 1, value_b := 1\<rparr>]\<rparr>"
  let ?g3 = "(globals_init None)\<lparr>led_map := led_map_init[0 :=
            (LED_MAP 99)\<lparr>value_i := 16777215 / 16777216, value_r := 16777215 / 16777216,
               value_g := 16777215 / 16777216, value_b := 16777215 / 16777216\<rparr>]\<rparr>"
  have "update 0 (13421773 / 67108864) (13421773 / 67108864) (13421773 / 67108864)
      (13421773 / 67108864) ?g1
    = Inr (?g1\<lparr>led_map := (led_map ?g1)[0 := (led_map ?g1 ! 0)\<lparr>value_i := 3355443 / 16777216,
         value_r := 3355443 / 16777216, value_g := 3355443 / 16777216,
         value_b := 3355443 / 16777216\<rparr>]\<rparr>)"
    by (simp add: update_def led_map_init_def Let_def decay_step_past)
  then have a: "\<exists>st'. update 0 (13421773 / 67108864) (13421773 / 67108864) (13421773 / 67108864)
             (13421773 / 67108864) ?g1 = Inr st'
        \<and> value_i (led_map st' ! 0) = 3355443 / 16777216
        \<and> value_i (led_map st' ! 0) < 13421773 / 67108864"
    by (simp add: led_map_init_def)
  have same: "update 0 1 1 1 1 ?g3 = Inr ?g3"
    by (simp add: update_def globals_init_def led_map_init_def Let_def decay_step_stall LED_MAP_def)
  have b: "update_repeat n 0 1 1 1 1 ?g3 = Inr ?g3" for n
    by (induction n) (simp_all add: same)
  have c: "global_decay (globals_init None) = 3" by (simp add: globals_init_def)
  from a b c show ?thesis by blast
qed

section \<open>The pixel speed\<close>

text \<open>
  A reduced random number below \<open>2 ^ 24\<close> is converted to \<^verbatim>\<open>float\<close> unchanged; its
  product with a speed from 0 to 1 is rounded and converted back without a fault.
\<close>

lemma scale_draw_result:
  assumes "unat d < 2 ^ 24" and "0 \<le> speed" and "speed \<le> 1"
  shows "scale_draw d speed = Inr (word_of_int \<lfloor>binary32 (real (unat d) * speed)\<rfloor>)"
proof -
  let ?n = "real (unat d)"
  have n0: "0 \<le> ?n" by (rule of_nat_0_le_iff)
  have "?n < real (2 ^ 24)" using assms(1) by (simp only: of_nat_less_iff)
  then have n: "?n \<le> 2 ^ 24" by simp
  then have na: "\<bar>?n\<bar> \<le> 2 ^ 24" using n0 by (simp only: abs_of_nonneg)
  have c: "to_float ?n = Inr ?n"
    using to_float_finite [OF na] binary32_of_nat [OF assms(1)] by (simp only:)
  have "?n * speed \<le> ?n * 1" using assms(3) n0 by (intro mult_left_mono)
  with n have p: "?n * speed \<le> 2 ^ 24" by (simp only: mult_1_right order_trans)
  have p0: "0 \<le> ?n * speed" using n0 assms(2) by (rule mult_nonneg_nonneg)
  with p have pa: "\<bar>?n * speed\<bar> \<le> 2 ^ 24" by (simp only: abs_of_nonneg)
  note m = to_float_finite [OF pa] binary32_abs_le [OF pa] binary32_nonneg [OF p0]
  have "float_to_unsigned (binary32 (?n * speed)) = Inr (word_of_int \<lfloor>binary32 (?n * speed)\<rfloor>)"
    using m(2,3) by (simp add: float_to_unsigned_def c_trunc_def del: of_nat_unat)
  then show ?thesis
    using m(1) by (simp only: scale_draw_def c sum.case)
qed

lemma update_pixel_speed_result:
  assumes "width pic \<noteq> 0" and "height pic \<noteq> 0"
    and "unat (width pic) \<le> 2 ^ 24" and "unat (height pic) \<le> 2 ^ 24"
    and "image_size g div 4 \<noteq> 0"
    and "0 \<le> global_pixel_speed g" and "global_pixel_speed g \<le> 1"
  shows "update_pixel_speed (Some pic) r1 r2 g =
    Inr (g\<lparr>random_value := 4 *
      ((word_of_int \<lfloor>binary32 (real (unat (r1 mod width pic)) * global_pixel_speed g)\<rfloor>
        + word_of_int \<lfloor>binary32 (real (unat (r2 mod height pic)) * global_pixel_speed g)\<rfloor> * width pic)
       mod (image_size g div 4))\<rparr>)"
proof -
  have "r1 mod width pic < width pic" "r2 mod height pic < height pic"
    using assms(1,2) by (simp_all add: word_mod_less_divisor word_neq_0_conv [symmetric])
  then have "unat (r1 mod width pic) < unat (width pic)" "unat (r2 mod height pic) < unat (height pic)"
    by (simp_all only: word_less_nat_alt)
  with assms(3,4) have b: "unat (r1 mod width pic) < 2 ^ 24" "unat (r2 mod height pic) < 2 ^ 24"
    by linarith+
  note w = scale_draw_result [OF b(1) assms(6,7)]
  note h = scale_draw_result [OF b(2) assms(6,7)]
  show ?thesis
    unfolding update_pixel_speed_def using assms(1,2,5)
    by (simp only: option.case w h sum.case Let_def) simp
qed










section \<open>Storing values and the spot channels\<close>

text \<open>
  The product in \<open>store\<close>. The program calls \<open>store\<close> with the maximum 255 only. Between
  the product of 255 and a \<^verbatim>\<open>float\<close> and the next integer above it there is more than
  the rounding error of a number of that size, so the rounded product and the exact one
  have the same integer part: \<open>store\<close> returns what it would return with the product
  rounded.
\<close>

lemma gap_mod:
  fixes N K n :: int
  assumes "N = K * 2 ^ 24 - 255 * n" and "0 < N" and "128 < K" and "K < 256"
  shows "128 < N"
proof -
  have "N mod 255 = (K * 2 ^ 24) mod 255"
    unfolding assms(1) by (simp add: mod_diff_eq [symmetric])
  also have "\<dots> = (K * (2 ^ 24 mod 255)) mod 255" by (simp only: mod_mult_right_eq)
  also have "\<dots> = K mod 255" by simp
  finally have m: "N mod 255 = K mod 255" .
  show ?thesis
  proof (cases "K = 255")
    case True
    with m have "N mod 255 = 0" by simp
    with assms(2) have "255 \<le> N" by (simp add: zmod_eq_0_iff) (metis assms(2) zdvd_imp_le dvd_triv_left mult.commute)
    then show ?thesis by simp
  next
    case False
    with assms(3,4) have "K mod 255 = K" by simp
    with m have "N mod 255 = K" by simp
    moreover have "N mod 255 \<le> N" using assms(2) by (simp add: zmod_le_nonneg_dividend)
    ultimately show ?thesis using assms(3) by simp
  qed
qed

lemma gap_mod_power:
  fixes N n :: int
  assumes "N = 2 ^ 31 - 255 * n" and "0 < N"
  shows "128 \<le> N"
proof -
  have "N mod 255 = 2 ^ 31 mod 255"
    unfolding assms(1) by (simp add: mod_diff_eq [symmetric])
  also have "\<dots> = 128" by simp
  finally have "N mod 255 = 128" .
  moreover have "N mod 255 \<le> N" using assms(2) by (simp add: zmod_le_nonneg_dividend)
  ultimately show ?thesis by simp
qed

lemma product_gap:
  fixes K j :: int and v :: real
  assumes j: "- 1 \<le> j" "j \<le> 7"
    and K: "(2 :: real) powi j < of_int K" "real_of_int K \<le> 2 powi (j + 1)"
    and f: "binary32 v = v"
    and x: "(2 :: real) powi j \<le> 255 * v" "255 * v < of_int K"
  shows "2 powi (j - 24) < of_int K - 255 * v"
proof -
  define u :: real where "u = 2 powi (j - 31)"
  have u: "0 < u" by (simp add: u_def)
  have p24: "(2 :: real) powi (j - 24) = 128 * u"
    unfolding u_def using powi_split [of "j - 24" 7] by simp
  have p8: "(2 :: real) powi (j - 8) = 2 ^ 23 * u"
    unfolding u_def using powi_split [of "j - 8" 23] by simp
  have p7: "(2 :: real) powi (j - 7) = 2 ^ 24 * u"
    unfolding u_def using powi_split [of "j - 7" 24] by simp
  have p0: "(2 :: real) powi j = 2 ^ 31 * u"
    unfolding u_def using powi_split [of j 31] by simp
  have p1: "(2 :: real) powi (j + 1) = 2 ^ 32 * u"
    unfolding u_def using powi_split [of "j + 1" 32] by simp
  define K' where "K' = K * 2 ^ nat (7 - j)"
  have "(2 :: real) powi (7 - j) = of_int (2 ^ nat (7 - j))"
    using j by (intro powi_nat) simp
  moreover have "(1 :: real) = 2 powi (7 - j) * (2 ^ 24 * u)"
    unfolding p7 [symmetric] using power_int_add [of "2 :: real" "7 - j" "j - 7"] by simp
  ultimately have Kr: "real_of_int K = of_int K' * (2 ^ 24 * u)"
    by (simp add: K'_def)
  from K(1) [unfolded p0 Kr] u have "(2 ^ 31 :: real) < of_int K' * 2 ^ 24" by simp
  then have "real_of_int 128 < of_int K'" by simp
  then have K1: "128 < K'" by (simp only: of_int_less_iff)
  from K(2) [unfolded p1 Kr] u have "real_of_int K' * 2 ^ 24 \<le> 2 ^ 32" by simp
  then have "real_of_int K' \<le> of_int 256" by simp
  then have K2: "K' \<le> 256" by (simp only: of_int_le_iff)
  have v0: "0 < v" using x(1) by (smt (verit) zero_less_power_int)
  have "2 powi (j - 8) \<le> v"
  proof -
    have "(2 :: real) ^ 23 * u * 255 \<le> 2 ^ 31 * u" using u by simp
    with x(1) show ?thesis unfolding p0 p8 by linarith
  qed
  with v0 have va: "2 powi (j - 8) \<le> \<bar>v\<bar>" by simp
  show ?thesis
  proof (cases "K' = 256")
    case False
    with K2 have K3: "K' < 256" by simp
    from binary32_grid [OF f _ _ va] j obtain n where "v = of_int n * 2 powi (j - 8 - 23)"
      by auto
    then have n: "v = of_int n * u" by (simp add: u_def)
    define N where "N = K' * 2 ^ 24 - 255 * n"
    have d: "of_int K - 255 * v = of_int N * u"
      by (simp add: Kr n N_def algebra_simps)
    from x(2) have "0 < real_of_int N * u" unfolding d [symmetric] by linarith
    with u have "0 < real_of_int N" by (simp add: zero_less_mult_iff)
    then have "0 < N" by simp
    from gap_mod [OF N_def this K1 K3] have "129 \<le> N" by simp
    then have "real_of_int 129 \<le> of_int N" by (simp only: of_int_le_iff)
    then have "129 * u \<le> of_int N * u" using u by simp
    with u show ?thesis unfolding d p24 by linarith
  next
    case True
    then have Kp: "real_of_int K = 2 ^ 32 * u" by (simp add: Kr)
    show ?thesis
    proof (cases "v < 2 powi (j - 7)")
      case True
      then have "255 * v < 255 * (2 ^ 24 * u)" unfolding p7 by simp
      then have "2 ^ 24 * u < of_int K - 255 * v" unfolding Kp by simp
      moreover have "128 * u \<le> 2 ^ 24 * u" using u by simp
      ultimately show ?thesis unfolding p24 by linarith
    next
      case False
      with v0 have "2 powi (j - 7) \<le> \<bar>v\<bar>" by simp
      from binary32_grid [OF f _ _ this] j obtain n where "v = of_int n * 2 powi (j - 7 - 23)"
        by auto
      moreover have "(2 :: real) powi (j - 7 - 23) = 2 * u"
        unfolding u_def using powi_split [of "j - 30" 1] by simp
      ultimately have n: "v = of_int n * (2 * u)" by simp
      define N where "N = 2 ^ 31 - 255 * n"
      have d: "of_int K - 255 * v = of_int N * (2 * u)"
        by (simp add: Kp n N_def algebra_simps)
      from x(2) have "0 < real_of_int N * (2 * u)" unfolding d [symmetric] by linarith
      with u have "0 < real_of_int N" by (simp add: zero_less_mult_iff)
      then have "0 < N" by simp
      from gap_mod_power [OF N_def this] have "real_of_int 128 \<le> of_int N"
        by (simp only: of_int_le_iff)
      then have "128 * (2 * u) \<le> of_int N * (2 * u)" using u by simp
      with u show ?thesis unfolding d p24 by linarith
    qed
  qed
qed

lemma binade_of_level:
  fixes K :: int
  assumes "1 \<le> K" and "K \<le> 256"
  shows "\<exists>j. - 1 \<le> j \<and> j \<le> 7 \<and> (2 :: real) powi j < of_int K \<and> real_of_int K \<le> 2 powi (j + 1)"
proof -
  consider "K = 1" | "K = 2" | "3 \<le> K \<and> K \<le> 4" | "5 \<le> K \<and> K \<le> 8" | "9 \<le> K \<and> K \<le> 16" | "17 \<le> K \<and> K \<le> 32" | "33 \<le> K \<and> K \<le> 64" | "65 \<le> K \<and> K \<le> 128" | "129 \<le> K \<and> K \<le> 256"
    using assms by linarith
  then show ?thesis
  proof cases
    case 1
    then show ?thesis by (intro exI [of _ "- 1"]) simp
  next
    case 2
    then show ?thesis by (intro exI [of _ "0"]) simp
  next
    case 3
    then show ?thesis by (intro exI [of _ "1"]) simp
  next
    case 4
    then show ?thesis by (intro exI [of _ "2"]) simp
  next
    case 5
    then show ?thesis by (intro exI [of _ "3"]) simp
  next
    case 6
    then show ?thesis by (intro exI [of _ "4"]) simp
  next
    case 7
    then show ?thesis by (intro exI [of _ "5"]) simp
  next
    case 8
    then show ?thesis by (intro exI [of _ "6"]) simp
  next
    case 9
    then show ?thesis by (intro exI [of _ "7"]) simp
  qed
qed

lemma product_255:
  assumes f: "binary32 v = v" and v: "0 \<le> v" "v \<le> 1"
  shows "\<lfloor>binary32 (255 * v)\<rfloor> = \<lfloor>255 * v\<rfloor>"
proof -
  define x where "x = 255 * v"
  define K where "K = \<lfloor>x\<rfloor> + 1"
  have x: "0 \<le> x" "x \<le> 255" using v by (simp_all add: x_def)
  have lo: "real_of_int (K - 1) \<le> x" and hi: "x < real_of_int K"
    unfolding K_def by linarith+
  have "0 \<le> \<lfloor>x\<rfloor>" using x(1) by simp
  moreover have "\<lfloor>x\<rfloor> \<le> 255" using x(2) by (simp add: floor_le_iff)
  ultimately have K: "1 \<le> K" "K \<le> 256" by (simp_all add: K_def)
  define m where "m = nat (K - 1)"
  have m: "real m = real_of_int (K - 1)" "m < 2 ^ 24" using K by (simp_all add: m_def)
  have "binary32 (real m) \<le> binary32 x" using lo m(1) by (intro binary32_mono) simp
  then have lower: "real_of_int (K - 1) \<le> binary32 x"
    using binary32_of_nat [OF m(2)] m(1) by simp
  from binade_of_level [OF K] obtain j where j: "- 1 \<le> j" "j \<le> 7"
    and Kj: "(2 :: real) powi j < of_int K" "real_of_int K \<le> 2 powi (j + 1)" by blast
  have upper: "binary32 x < real_of_int K"
  proof (cases "x < 2 powi j")
    case True
    then have "binary32 x \<le> binary32 (2 powi j)" by (intro binary32_mono) simp
    also have "\<dots> = 2 powi j" using j by (intro binary32_powi) simp_all
    finally show ?thesis using Kj(1) by simp
  next
    case False
    then have "2 powi j \<le> 255 * v" by (simp add: x_def)
    from product_gap [OF j Kj f this] hi have gap: "2 powi (j - 24) < of_int K - x"
      by (simp add: x_def)
    have "\<bar>x\<bar> \<le> 2 powi (j + 1)" using x(1) hi Kj(2) by simp
    from binary32_error_powi [OF this] j have "\<bar>binary32 x - x\<bar> \<le> 2 powi (j + 1 - 25)"
      by simp
    moreover have "j + 1 - 25 = j - 24" by simp
    ultimately have "\<bar>binary32 x - x\<bar> \<le> 2 powi (j - 24)" by simp
    with gap show ?thesis by linarith
  qed
  have "\<lfloor>binary32 x\<rfloor> = K - 1"
    using lower upper by (intro floor_unique) simp_all
  moreover have "\<lfloor>x\<rfloor> = K - 1" by (simp add: K_def)
  ultimately show ?thesis by (simp add: x_def)
qed

lemma store_product:
  assumes "binary32 v = v"
  shows "store v buf ptr 255 =
     (let v = (if v > 1 then 1 else if v < 0 then 0 else v)
      in case to_float (255 * v) of
           Inl e \<Rightarrow> Inl e
         | Inr p \<Rightarrow>
             (case float_to_int p of
                Inl e \<Rightarrow> Inl e
              | Inr n \<Rightarrow> if ptr < length buf then Inr (buf[ptr := word_of_int n]) else Inl OutOfBounds))"
proof -
  define c where "c = (if v > 1 then 1 else if v < 0 then 0 else v)"
  have c: "0 \<le> c" "c \<le> 1" by (simp_all add: c_def)
  have "binary32 (real 1) = real 1" by (intro binary32_of_nat) simp
  then have f: "binary32 c = c" using assms by (simp add: c_def)
  have b: "\<bar>255 * c\<bar> \<le> 2 ^ 8" using c by simp
  from to_float_finite [OF b] have t: "to_float (255 * c) = Inr (binary32 (255 * c))" by simp
  have n: "0 \<le> binary32 (255 * c)" using c by (intro binary32_nonneg) simp
  have "\<bar>binary32 (255 * c)\<bar> \<le> 2 ^ 8" using b by (rule binary32_abs_le)
  with n have r: "float_to_int (binary32 (255 * c)) = Inr \<lfloor>binary32 (255 * c)\<rfloor>"
    by (simp add: float_to_int_def c_trunc_def)
  have e: "float_to_int (255 * c) = Inr \<lfloor>255 * c\<rfloor>"
    using c by (simp add: float_to_int_def c_trunc_def)
  show ?thesis
    unfolding store_def c_def [symmetric] Let_def t e sum.case r product_255 [OF f c] ..
qed

lemma store_clamped:
  "store v buf ptr 255 =
     (if ptr < length buf then Inr (buf[ptr := word_of_int \<lfloor>255 * max 0 (min 1 v)\<rfloor>])
      else Inl OutOfBounds)"
proof -
  let ?c = "if v > 1 then 1 else if v < 0 then 0 else v"
  have c: "?c = max 0 (min 1 v)" by (simp add: max_def min_def)
  have rng: "0 \<le> 255 * ?c" "255 * ?c \<le> 255" by simp_all
  then have "float_to_int (255 * ?c) = Inr \<lfloor>255 * ?c\<rfloor>"
    by (auto simp: float_to_int_def c_trunc_def)
  then show ?thesis
    unfolding store_def Let_def c by simp
qed

lemma store_examples:
  "ptr < length buf \<Longrightarrow> store (- 5) buf ptr 255 = Inr (buf[ptr := 0])"
  "ptr < length buf \<Longrightarrow> store 2 buf ptr 255 = Inr (buf[ptr := 255])"
  "ptr < length buf \<Longrightarrow> store (1 / 2) buf ptr 255 = Inr (buf[ptr := 127])"
  "ptr < length buf \<Longrightarrow> store (2 / 5) buf ptr 255 = Inr (buf[ptr := 102])"
  by (simp_all add: store_clamped)

lemma store_frame:
  "store v buf ptr mx = Inr buf' \<Longrightarrow> length buf' = length buf \<and> (\<forall>j. j \<noteq> ptr \<longrightarrow> buf' ! j = buf ! j)"
  by (auto simp: store_def Let_def split: sum.splits if_splits)

lemma store_spots_result:
  "store_spots xs g buf = Inr buf' \<Longrightarrow>
   length buf' = length buf
   \<and> (\<forall>x \<in> set xs. buf' ! x = word_of_int \<lfloor>255 * max 0 (min 1 (global_spot_gain g))\<rfloor>)
   \<and> (\<forall>j. j \<notin> set xs \<longrightarrow> buf' ! j = buf ! j)"
proof (induction xs arbitrary: buf)
  case Nil
  then show ?case by simp
next
  case (Cons x xs)
  let ?b = "word_of_int \<lfloor>255 * max 0 (min 1 (global_spot_gain g))\<rfloor> :: u8"
  from Cons.prems have x: "x < length buf"
    and rest: "store_spots xs g (buf[x := ?b]) = Inr buf'"
    by (auto simp: store_clamped split: if_splits)
  from Cons.IH [OF rest] have len: "length buf' = length buf"
    and set: "\<forall>y \<in> set xs. buf' ! y = ?b"
    and other: "\<forall>j. j \<notin> set xs \<longrightarrow> buf' ! j = buf[x := ?b] ! j"
    by simp_all
  have "buf' ! x = ?b"
  proof (cases "x \<in> set xs")
    case True
    with set show ?thesis by simp
  next
    case False
    with other x show ?thesis by simp
  qed
  with len set other show ?case by auto
qed


lemma store_led_frame:
  assumes "store_led which buf g = Inr buf'"
  shows "length buf' = length buf" and "unat which < length (led_map g)"
    and "j \<notin> set (offsets_of (led_map g ! unat which)) \<Longrightarrow> buf' ! j = buf ! j"
proof -
  let ?l = "led_map g ! unat which"
  from assms have w: "unat which < length (led_map g)"
    by (simp add: store_led_def split: if_splits)
  with assms obtain vi b1 b2 b3 where
    s1: "store vi buf (unat (offset_i ?l)) 255 = Inr b1"
    and s2: "store (value_r ?l) b1 (unat (offset_r ?l)) 255 = Inr b2"
    and s3: "store (value_g ?l) b2 (unat (offset_g ?l)) 255 = Inr b3"
    and s4: "store (value_b ?l) b3 (unat (offset_b ?l)) 255 = Inr buf'"
    by (simp add: store_led_def Let_def split: sum.splits)
  note f1 = store_frame [OF s1] and f2 = store_frame [OF s2]
    and f3 = store_frame [OF s3] and f4 = store_frame [OF s4]
  show "length buf' = length buf"
    using f1 f2 f3 f4 by simp
  show "unat which < length (led_map g)" by (rule w)
  assume "j \<notin> set (offsets_of ?l)"
  then have j: "j \<noteq> unat (offset_i ?l)" "j \<noteq> unat (offset_r ?l)"
      "j \<noteq> unat (offset_g ?l)" "j \<noteq> unat (offset_b ?l)"
    by (simp_all add: offsets_of_def)
  have "buf' ! j = b3 ! j" using f4 j(4) by blast
  also have "\<dots> = b2 ! j" using f3 j(3) by blast
  also have "\<dots> = b1 ! j" using f2 j(2) by blast
  also have "\<dots> = buf ! j" using f1 j(1) by blast
  finally show "buf' ! j = buf ! j" .
qed

lemma update_offsets:
  assumes "update which i r g b st = Inr st'"
  shows "map offsets_of (led_map st') = map offsets_of (led_map st)"
proof -
  from assms have w: "unat which < length (led_map st)"
    by (simp add: update_def split: if_splits)
  with assms obtain l' where st': "led_map st' = (led_map st)[unat which := l']"
    and l': "offsets_of l' = offsets_of (led_map st ! unat which)"
    by (auto simp: update_def Let_def offsets_of_def split: if_splits sum.splits)
  have "map offsets_of (led_map st') = (map offsets_of (led_map st))[unat which := offsets_of l']"
    by (simp add: st' map_update)
  also have "\<dots> = map offsets_of (led_map st)"
    unfolding l' using w by (simp add: list_update_same_conv)
  finally show ?thesis .
qed

lemma led_cells_cong:
  "map offsets_of (led_map g') = map offsets_of (led_map g) \<Longrightarrow> led_cells g' = led_cells g"
proof -
  assume "map offsets_of (led_map g') = map offsets_of (led_map g)"
  then have "set (map offsets_of (led_map g')) = set (map offsets_of (led_map g))"
    by simp
  then have "offsets_of ` set (led_map g') = offsets_of ` set (led_map g)"
    by simp
  then have "(\<Union>x \<in> offsets_of ` set (led_map g'). set x) = (\<Union>x \<in> offsets_of ` set (led_map g). set x)"
    by simp
  then show ?thesis
    by (simp add: led_cells_def)
qed

lemma led_iter_frame:
  assumes "led_iter pic x (p, buf, g) = Inr (p', buf', g')"
  shows "map offsets_of (led_map g') = map offsets_of (led_map g)"
    and "length buf' = length buf"
    and "j \<notin> led_cells g \<Longrightarrow> buf' ! j = buf ! j"
proof -
  from assms obtain i r gg b where
    up: "update (of_nat x) i r gg b g = Inr g'" and st: "store_led (of_nat x) buf g' = Inr buf'"
    by (auto simp: led_iter_def split: option.splits prod.splits sum.splits)
  show off: "map offsets_of (led_map g') = map offsets_of (led_map g)"
    by (rule update_offsets [OF up])
  show "length buf' = length buf"
    by (rule store_led_frame(1) [OF st])
  assume j: "j \<notin> led_cells g"
  have "led_map g' ! unat (of_nat x :: u8) \<in> set (led_map g')"
    using store_led_frame(2) [OF st] by simp
  then have "set (offsets_of (led_map g' ! unat (of_nat x :: u8))) \<subseteq> led_cells g'"
    unfolding led_cells_def by blast
  with j led_cells_cong [OF off] have "j \<notin> set (offsets_of (led_map g' ! unat (of_nat x :: u8)))"
    by blast
  then show "buf' ! j = buf ! j"
    by (rule store_led_frame(3) [OF st])
qed

lemma led_loop_frame:
  "led_loop pic xs (p, buf, g) = Inr (p', buf', g') \<Longrightarrow>
   map offsets_of (led_map g') = map offsets_of (led_map g)
    \<and> length buf' = length buf
    \<and> (\<forall>j. j \<notin> led_cells g \<longrightarrow> buf' ! j = buf ! j)"
proof (induction xs arbitrary: p buf g)
  case Nil
  then show ?case by simp
next
  case (Cons x xs)
  then obtain p1 buf1 g1 where it: "led_iter pic x (p, buf, g) = Inr (p1, buf1, g1)"
    and rest: "led_loop pic xs (p1, buf1, g1) = Inr (p', buf', g')"
    by (auto split: sum.splits)
  note i = led_iter_frame [OF it]
  note c = led_cells_cong [OF i(1)]
  from Cons.IH [OF rest] have r: "map offsets_of (led_map g') = map offsets_of (led_map g1)"
      "length buf' = length buf1" "\<forall>j. j \<notin> led_cells g1 \<longrightarrow> buf' ! j = buf1 ! j"
    by simp_all
  have "buf' ! j = buf ! j" if "j \<notin> led_cells g" for j
    using that r(3) c i(3) by simp
  with r(1,2) i(1,2) show ?case by simp
qed

lemma render_leds_frame:
  assumes "render_leds cfg buf g = Inr (buf', g')"
  shows "length buf' = length buf" and "j \<notin> led_cells g \<Longrightarrow> buf' ! j = buf ! j"
proof -
  have "length buf' = length buf \<and> (\<forall>j. j \<notin> led_cells g \<longrightarrow> buf' ! j = buf ! j)"
  proof (cases cfg)
    case None
    with assms show ?thesis by (simp add: render_leds_def)
  next
    case (Some pic)
    with assms obtain p' where "led_loop pic [0..<LEDS] (image_data g, buf, g) = Inr (p', buf', g')"
      by (auto simp: render_leds_def split: sum.splits)
    from led_loop_frame [OF this] show ?thesis by simp
  qed
  then show "length buf' = length buf" and "j \<notin> led_cells g \<Longrightarrow> buf' ! j = buf ! j"
    by simp_all
qed


lemma advance_image_gain:
  "advance_image cfg g = Inr g' \<Longrightarrow>
   global_spot_gain g' = global_spot_gain g \<and> led_map g' = led_map g"
  by (auto simp: advance_image_def split: option.splits)

lemma count_tick_buffer:
  "count_tick cfg r1 r2 w g = Inr (w', g') \<Longrightarrow> buffer w' = buffer w"
  by (auto simp: count_tick_def Let_def split: if_splits sum.splits)

lemma usb_write_iter_cases:
  assumes "usb_write_iter cfg (sent, r1, r2) (w, g) = Inr (brk, w', g')"
  obtains (break) m where "convert (buffer w) (martin w) = Inr m"
      "\<not> sent" "timeout w = 0" "brk"
      "w' = w\<lparr>martin := m, timeout := timeout w - 1\<rparr>" "g' = g"
  | (pass) m g1 buf1 buf2 g2 w2 where "convert (buffer w) (martin w) = Inr m"
      "sent \<or> timeout w \<noteq> 0" "\<not> brk"
      "advance_image cfg g = Inr g1"
      "store_spots [SPOT_START..<SPOT_END] g1 (buffer w) = Inr buf1"
      "render_leds cfg buf1 g1 = Inr (buf2, g2)"
      "count_tick cfg r1 r2 w2 g2 = Inr (w', g')"
      "buffer w2 = buf2" "martin w2 = m" "counter w2 = counter w"
      "timeout w2 = (if sent then 3 else timeout w - 1)"
      "slept_usec w2 = slept_usec w + 1000000 div FPS" "recomputed w2 = recomputed w"
proof -
  from assms obtain m where m: "convert (buffer w) (martin w) = Inr m"
    by (auto simp: usb_write_iter_def split: sum.splits)
  show thesis
  proof (cases "\<not> sent \<and> timeout w = 0")
    case True
    with assms m have "brk" "w' = w\<lparr>martin := m, timeout := timeout w - 1\<rparr>" "g' = g"
      by (auto simp: usb_write_iter_def Let_def)
    with True m show thesis by (intro break) simp_all
  next
    case False
    define w1 where "w1 = w\<lparr>martin := m, timeout := (if sent then 3 else timeout w - 1),
        slept_usec := slept_usec w + 1000000 div FPS\<rparr>"
    from assms m False have run: "(case advance_image cfg g of
         Inl e \<Rightarrow> Inl e
       | Inr g \<Rightarrow>
        (case store_spots [SPOT_START..<SPOT_END] g (buffer w1) of
           Inl e \<Rightarrow> Inl e
         | Inr buf \<Rightarrow>
          (case render_leds cfg buf g of
             Inl e \<Rightarrow> Inl e
           | Inr (buf, g) \<Rightarrow>
            (case count_tick cfg r1 r2 (w1\<lparr>buffer := buf\<rparr>) g of
               Inl e \<Rightarrow> Inl e
             | Inr (w, g) \<Rightarrow> Inr (False, w, g))))) = Inr (brk, w', g')"
      by (auto simp: usb_write_iter_def Let_def w1_def cong: if_cong sum.case_cong prod.case_cong)
    then obtain g1 where a: "advance_image cfg g = Inr g1"
      by (cases "advance_image cfg g") simp_all
    with run obtain buf1 where b: "store_spots [SPOT_START..<SPOT_END] g1 (buffer w1) = Inr buf1"
      by (cases "store_spots [SPOT_START..<SPOT_END] g1 (buffer w1)") simp_all
    with run a obtain buf2 g2 where c: "render_leds cfg buf1 g1 = Inr (buf2, g2)"
      by (cases "render_leds cfg buf1 g1") auto
    with run a b have d: "count_tick cfg r1 r2 (w1\<lparr>buffer := buf2\<rparr>) g2 = Inr (w', g')" and e: "\<not> brk"
      by (cases "count_tick cfg r1 r2 (w1\<lparr>buffer := buf2\<rparr>) g2"; auto)+
    have bw: "buffer w1 = buffer w" by (simp add: w1_def)
    show thesis
      using False m a b [unfolded bw] c d e
      by (intro pass [of m g1 buf1 buf2 g2 "w1\<lparr>buffer := buf2\<rparr>"]) (auto simp: w1_def)
  qed
qed

lemma store_spots_total:
  "\<forall>x \<in> set xs. x < length buf \<Longrightarrow> \<exists>buf'. store_spots xs g buf = Inr buf'"
  by (induction xs arbitrary: buf) (simp_all add: store_clamped)

section \<open>A pass of the render loop returns\<close>

lemma length_wire_frame_whole: "length from = 512 \<Longrightarrow> length (wire_frame from 9) = 530"
  using wire_frame_Suc [of "from" 8] by (simp add: length_wire_frame length_chunk_last)

lemma wrap_offset_mod: "0 < sz \<Longrightarrow> wrap_offset off sz = Some (off mod sz)"
proof (induction off rule: less_induct)
  case (less off)
  show ?case
  proof (cases "sz \<le> off")
    case True
    with less.prems have "off - sz < off" by simp
    from less.IH [OF this less.prems] True show ?thesis
      by (subst wrap_offset.simps) (simp add: le_mod_geq)
  next
    case False
    then show ?thesis
      by (subst wrap_offset.simps) simp
  qed
qed

lemma led_cells_values:
  fixes g :: globals
  assumes "map offsets_of (led_map g) = map offsets_of led_map_init"
  shows "led_cells g = {99, 100, 101, 106, 108, 109, 110, 115, 117, 118, 119, 124, 126, 127, 128, 133,
      135, 136, 137, 142, 144, 145, 146, 151, 153, 154, 155, 160, 162, 163, 164, 169}"
proof -
  have "led_cells g = led_cells (g\<lparr>led_map := led_map_init\<rparr>)"
    using assms by (intro led_cells_cong) simp
  also have "\<dots> = {99, 100, 101, 106, 108, 109, 110, 115, 117, 118, 119, 124, 126, 127, 128, 133,
      135, 136, 137, 142, 144, 145, 146, 151, 153, 154, 155, 160, 162, 163, 164, 169}"
    by (simp add: led_cells_def led_map_init_def LED_MAP_def offsets_of_def) blast
  finally show ?thesis .
qed

lemma led_cells_init:
  fixes g :: globals
  assumes "x < SPOT_END" and "map offsets_of (led_map g) = map offsets_of led_map_init"
  shows "x \<notin> led_cells g"
  unfolding led_cells_values [OF assms(2)] using assms(1) by (simp add: SPOT_END_def)

lemma led_offsets_bound:
  fixes g :: globals
  assumes "map offsets_of (led_map g) = map offsets_of led_map_init" and "i < LEDS"
  shows "length (led_map g) = LEDS"
    and "unat (offset_i (led_map g ! i)) < 512" and "unat (offset_r (led_map g ! i)) < 512"
    and "unat (offset_g (led_map g ! i)) < 512" and "unat (offset_b (led_map g ! i)) < 512"
proof -
  from assms(1) have "length (map offsets_of (led_map g)) = length (map offsets_of led_map_init)"
    by simp
  then show len: "length (led_map g) = LEDS"
    by (simp add: led_map_init_def LEDS_def)
  with assms(2) have "led_map g ! i \<in> set (led_map g)" by simp
  then have sub: "set (offsets_of (led_map g ! i)) \<subseteq> led_cells g"
    unfolding led_cells_def by blast
  have small: "x < 512" if "x \<in> led_cells g" for x
    using that unfolding led_cells_values [OF assms(1)] by auto
  have "unat (offset_i (led_map g ! i)) \<in> set (offsets_of (led_map g ! i))"
    "unat (offset_r (led_map g ! i)) \<in> set (offsets_of (led_map g ! i))"
    "unat (offset_g (led_map g ! i)) \<in> set (offsets_of (led_map g ! i))"
    "unat (offset_b (led_map g ! i)) \<in> set (offsets_of (led_map g ! i))"
    by (simp_all add: offsets_of_def)
  with sub small show "unat (offset_i (led_map g ! i)) < 512" "unat (offset_r (led_map g ! i)) < 512"
    "unat (offset_g (led_map g ! i)) < 512" "unat (offset_b (led_map g ! i)) < 512"
    by blast+
qed

lemma store_led_total:
  assumes "unat which < length (led_map g)"
    and "unat (offset_i (led_map g ! unat which)) < length buf"
    and "unat (offset_r (led_map g ! unat which)) < length buf"
    and "unat (offset_g (led_map g ! unat which)) < length buf"
    and "unat (offset_b (led_map g ! unat which)) < length buf"
    and "\<bar>value_i (led_map g ! unat which)\<bar> \<le> 2" and "\<bar>global_led_gain g\<bar> \<le> 2 ^ 32"
  shows "\<exists>buf'. store_led which buf g = Inr buf'"
proof -
  have "\<bar>value_i (led_map g ! unat which) * global_led_gain g\<bar> \<le> 2 * 2 ^ 32"
    unfolding abs_mult using assms(6,7) by (intro mult_mono) simp_all
  then have "\<bar>value_i (led_map g ! unat which) * global_led_gain g\<bar> \<le> 2 ^ 33"
    by simp
  from to_float_finite [OF this] show ?thesis
    using assms(1-5) by (simp add: store_led_def Let_def store_clamped)
qed

text \<open>The targets computed from a pixel lie between 0 and 1.\<close>

lemma pixel_level:
  fixes d :: real
  assumes "n \<le> m" and "real m = d" and "0 < d"
  shows "to_float (real n / d) = Inr (binary32 (real n / d))"
    and "0 \<le> binary32 (real n / d)" and "binary32 (real n / d) \<le> 1"
proof -
  have x0: "0 \<le> real n / d" using assms(3) by simp
  have "real n \<le> real m" using assms(1) by (simp only: of_nat_le_iff)
  then have "real n / d \<le> 1" using assms(2,3) by simp
  with x0 have xa: "\<bar>real n / d\<bar> \<le> 2 ^ 0" by (simp only: abs_of_nonneg power_0)
  show "to_float (real n / d) = Inr (binary32 (real n / d))"
    using to_float_finite [OF xa] by simp
  show "0 \<le> binary32 (real n / d)" using x0 by (rule binary32_nonneg)
  show "binary32 (real n / d) \<le> 1" using binary32_abs_le [OF xa] by simp
qed

lemma pixel_targets_result:
  "\<exists>ti tr tg tb. pixel_targets px = Inr (ti, tr, tg, tb)
     \<and> (\<forall>ch. 0 \<le> target_of ch ti tr tg tb \<and> target_of ch ti tr tg tb \<le> 1)"
proof -
  obtain p0 p1 p2 where px: "px = (p0, p1, p2)" by (cases px)
  have b: "unat p \<le> 255" for p :: u8
    using unsigned_less [of p, where ?'a = nat] by simp
  have s: "unat p0 + unat p1 + unat p2 \<le> 765"
    using b [of p0] b [of p1] b [of p2] by linarith
  have e: "real 765 = 255 * 3" "real 255 = 255" "(0 :: real) < 255 * 3" "(0 :: real) < 255"
    by simp_all
  note i = pixel_level [of "unat p0 + unat p1 + unat p2" 765 "255 * 3", OF s e(1,3)]
  note r = pixel_level [of "unat p0" 255 255, OF b e(2,4)]
  note g = pixel_level [of "unat p1" 255 255, OF b e(2,4)]
  note bl = pixel_level [of "unat p2" 255 255, OF b e(2,4)]
  let ?ti = "binary32 (real (unat p0 + unat p1 + unat p2) / (255 * 3))"
  let ?tr = "binary32 (real (unat p0) / 255)"
  let ?tg = "binary32 (real (unat p1) / 255)"
  let ?tb = "binary32 (real (unat p2) / 255)"
  have "pixel_targets px = Inr (?ti, ?tr, ?tg, ?tb)"
    unfolding px pixel_targets_def prod.case
    by (simp only: i(1) r(1) g(1) bl(1) sum.case)
  moreover have "0 \<le> target_of ch ?ti ?tr ?tg ?tb \<and> target_of ch ?ti ?tr ?tg ?tb \<le> 1" for ch
    using i(2,3) r(2,3) g(2,3) bl(2,3) by (cases ch) (simp_all only: target_of.simps)
  ultimately show ?thesis by blast
qed

lemma lights_in_range_nth:
  "lights_in_range g \<Longrightarrow> j < length (led_map g) \<Longrightarrow>
   - 1 \<le> value_of ch (led_map g ! j) \<and> value_of ch (led_map g ! j) \<le> 2"
proof -
  assume r: "lights_in_range g" and j: "j < length (led_map g)"
  then have "led_map g ! j \<in> set (led_map g)" by simp
  moreover have "ch \<in> {Intensity, Red, Green, Blue}" by (cases ch) simp_all
  ultimately show ?thesis using r unfolding lights_in_range_def by blast
qed

lemma lights_in_range_update:
  assumes "lights_in_range g"
    and "\<forall>ch. - 1 \<le> value_of ch l \<and> value_of ch l \<le> 2"
  shows "lights_in_range (g\<lparr>led_map := (led_map g)[j := l]\<rparr>)"
proof -
  have sub: "set ((led_map g)[j := l]) \<subseteq> insert l (set (led_map g))"
    by (rule set_update_subset_insert)
  have "- 1 \<le> value_of ch la \<and> value_of ch la \<le> 2"
    if "la \<in> set ((led_map g)[j := l])" for la ch
  proof -
    from that sub have "la = l \<or> la \<in> set (led_map g)" by auto
    moreover have "ch \<in> {Intensity, Red, Green, Blue}" by (cases ch) simp_all
    ultimately show ?thesis
      using assms unfolding lights_in_range_def by blast
  qed
  then show ?thesis
    unfolding lights_in_range_def by simp
qed

lemma lights_in_range_init: "led_map g = led_map_init \<Longrightarrow> lights_in_range g"
  by (simp add: lights_in_range_def led_map_init_def LED_MAP_def)

lemma led_iter_total:
  fixes g :: globals
  assumes off: "map offsets_of (led_map g) = map offsets_of led_map_init" and x: "x < LEDS"
    and len: "length buf = 512" and decay: "1 \<le> global_decay g" "global_decay g \<le> 2 ^ 22"
    and size: "image_size g \<noteq> 0"
    and rng: "lights_in_range g" and gain: "\<bar>global_led_gain g\<bar> \<le> 2 ^ 32"
  shows "\<exists>p' buf' g'. led_iter pic x (p, buf, g) = Inr (p', buf', g')
    \<and> length buf' = 512 \<and> g' = g\<lparr>led_map := led_map g'\<rparr>
    \<and> map offsets_of (led_map g') = map offsets_of led_map_init
    \<and> lights_in_range g'"
proof -
  let ?which = "of_nat x :: u8"
  have ux: "unat ?which = x"
    using x by (simp add: unat_of_nat LEDS_def)
  have "0 < unat (image_size g)"
    using size by (simp add: unat_gt_0)
  then have wrap: "wrap_offset p (unat (image_size g)) = Some (p mod unat (image_size g))"
    by (rule wrap_offset_mod)
  from pixel_targets_result [of "header_pixel pic (p mod unat (image_size g))"]
  obtain ti tr tg tb where px: "pixel_targets (header_pixel pic (p mod unat (image_size g))) = Inr (ti, tr, tg, tb)"
    and tgt: "\<forall>ch. 0 \<le> target_of ch ti tr tg tb \<and> target_of ch ti tr tg tb \<le> 1"
    by blast
  have w: "unat ?which < length (led_map g)"
    using led_offsets_bound(1) [OF off x] x by (simp add: ux)
  have vr: "\<forall>ch. - 1 \<le> value_of ch (led_map g ! unat ?which) \<and> value_of ch (led_map g ! unat ?which) \<le> 2"
    using lights_in_range_nth [OF rng w] by blast
  from update_step [OF w decay(1) vr tgt] obtain g' where
    up: "update ?which ti tr tg tb g = Inr g'"
    and vals: "\<forall>ch. value_of ch (led_map g' ! unat ?which) =
          decay_value (global_decay g) (target_of ch ti tr tg tb) (value_of ch (led_map g ! unat ?which))"
    and lm: "led_map g' = (led_map g)[unat ?which := led_map g' ! unat ?which]"
    and others: "g' = g\<lparr>led_map := led_map g'\<rparr>"
    by blast
  have vr': "\<forall>ch. - 1 \<le> value_of ch (led_map g' ! unat ?which) \<and> value_of ch (led_map g' ! unat ?which) \<le> 2"
  proof
    fix ch
    from vr tgt have "- 1 \<le> value_of ch (led_map g ! unat ?which)" "value_of ch (led_map g ! unat ?which) \<le> 2"
      "0 \<le> target_of ch ti tr tg tb" "target_of ch ti tr tg tb \<le> 1"
      by simp_all
    from decay_value_range [OF this decay] vals
    show "- 1 \<le> value_of ch (led_map g' ! unat ?which) \<and> value_of ch (led_map g' ! unat ?which) \<le> 2"
      by simp
  qed
  have "lights_in_range (g\<lparr>led_map := (led_map g)[unat ?which := led_map g' ! unat ?which]\<rparr>)"
    using rng vr' by (rule lights_in_range_update)
  then have rng': "lights_in_range g'"
    by (subst others, subst lm) simp
  note off' = update_offsets [OF up, unfolded off]
  note b = led_offsets_bound [OF off' x]
  have gain': "\<bar>global_led_gain g'\<bar> \<le> 2 ^ 32"
    using gain by (subst others) simp
  have vi: "\<bar>value_i (led_map g' ! unat ?which)\<bar> \<le> 2"
    using vr' [rule_format, of Intensity] by (simp add: abs_le_iff)
  have "\<exists>buf'. store_led ?which buf g' = Inr buf'"
    using b x vi gain' by (intro store_led_total) (simp_all add: ux len)
  then obtain buf' where st: "store_led ?which buf g' = Inr buf'" by blast
  have "led_iter pic x (p, buf, g) = Inr (p mod unat (image_size g) + 4, buf', g')"
    by (simp only: led_iter_def prod.case option.case sum.case wrap px up st)
  moreover have "length buf' = 512"
    using store_led_frame(1) [OF st] len by simp
  ultimately show ?thesis
    using others off' rng' by blast
qed

lemma led_loop_total:
  fixes g :: globals
  assumes "\<forall>x \<in> set xs. x < LEDS" and "map offsets_of (led_map g) = map offsets_of led_map_init"
    and "length buf = 512" and "1 \<le> global_decay g" and "global_decay g \<le> 2 ^ 22"
    and "image_size g \<noteq> 0" and "lights_in_range g" and "\<bar>global_led_gain g\<bar> \<le> 2 ^ 32"
  shows "\<exists>p' buf' g'. led_loop pic xs (p, buf, g) = Inr (p', buf', g')
    \<and> length buf' = 512 \<and> g' = g\<lparr>led_map := led_map g'\<rparr>
    \<and> map offsets_of (led_map g') = map offsets_of led_map_init
    \<and> lights_in_range g'"
  using assms
proof (induction xs arbitrary: p buf g)
  case Nil
  then show ?case by simp
next
  case (Cons x xs)
  from Cons.prems(1) have x: "x < LEDS" and xs: "\<forall>x \<in> set xs. x < LEDS" by simp_all
  from led_iter_total [OF Cons.prems(2) x Cons.prems(3-8), of pic p] obtain p1 buf1 g1 where
    it: "led_iter pic x (p, buf, g) = Inr (p1, buf1, g1)" and l1: "length buf1 = 512"
    and g1: "g1 = g\<lparr>led_map := led_map g1\<rparr>"
    and o1: "map offsets_of (led_map g1) = map offsets_of led_map_init"
    and r1: "lights_in_range g1"
    by blast
  have d1: "1 \<le> global_decay g1" "global_decay g1 \<le> 2 ^ 22" and s1: "image_size g1 \<noteq> 0"
    and n1: "\<bar>global_led_gain g1\<bar> \<le> 2 ^ 32"
    using Cons.prems(4,5,6,8) by (subst g1, simp)+
  from Cons.IH [OF xs o1 l1 d1 s1 r1 n1, of p1] obtain p' buf' g' where
    r: "led_loop pic xs (p1, buf1, g1) = Inr (p', buf', g')" and "length buf' = 512"
    and g': "g' = g1\<lparr>led_map := led_map g'\<rparr>"
    and "map offsets_of (led_map g') = map offsets_of led_map_init"
    and "lights_in_range g'"
    by blast
  moreover have "g' = g\<lparr>led_map := led_map g'\<rparr>"
    by (subst g', subst g1) simp
  ultimately show ?case using it by auto
qed

lemma size_nonzero: "image_size g div 4 \<noteq> 0 \<Longrightarrow> image_size g \<noteq> 0"
  by auto

lemma usb_write_iter_total:
  assumes "render_ready cfg w g"
  shows "\<exists>w' g'. usb_write_iter cfg (sent, r1, r2) (w, g) = Inr (\<not> sent \<and> timeout w = 0, w', g')
    \<and> render_ready cfg w' g'"
proof -
  from assms have lb: "length (buffer w) = 512" and lm: "length (martin w) = 530"
    by (simp_all add: render_ready_def)
  have m: "convert (buffer w) (martin w) = Inr (wire_frame (buffer w) 9)"
    using lb lm by (rule convert_wire_frame)
  have lw: "length (wire_frame (buffer w) 9) = 530"
    using lb by (rule length_wire_frame_whole)
  show ?thesis
  proof (cases "\<not> sent \<and> timeout w = 0")
    case True
    then have "usb_write_iter cfg (sent, r1, r2) (w, g)
        = Inr (True, w\<lparr>martin := wire_frame (buffer w) 9, timeout := timeout w - 1\<rparr>, g)"
      by (simp add: usb_write_iter_def m)
    moreover have "render_ready cfg (w\<lparr>martin := wire_frame (buffer w) 9, timeout := timeout w - 1\<rparr>) g"
      using assms lw by (simp add: render_ready_def)
    ultimately show ?thesis using True by auto
  next
    case False
    define w1 where "w1 = w\<lparr>martin := wire_frame (buffer w) 9,
        timeout := (if sent then 3 else timeout w - 1),
        slept_usec := slept_usec w + 1000000 div FPS\<rparr>"
    have "\<exists>w' g'. (case advance_image cfg g of
         Inl e \<Rightarrow> Inl e
       | Inr g \<Rightarrow>
        (case store_spots [SPOT_START..<SPOT_END] g (buffer w1) of
           Inl e \<Rightarrow> Inl e
         | Inr buf \<Rightarrow>
          (case render_leds cfg buf g of
             Inl e \<Rightarrow> Inl e
           | Inr (buf, g) \<Rightarrow>
            (case count_tick cfg r1 r2 (w1\<lparr>buffer := buf\<rparr>) g of
               Inl e \<Rightarrow> Inl e
             | Inr (w, g) \<Rightarrow> Inr (False, w, g))))) = Inr (False, w', g') \<and> render_ready cfg w' g'"
    proof (cases cfg)
      case None
      have "\<forall>x \<in> set [SPOT_START..<SPOT_END]. x < length (buffer w1)"
        using lb by (simp add: SPOT_END_def w1_def)
      from store_spots_total [OF this] obtain buf1 where
        s: "store_spots [SPOT_START..<SPOT_END] g (buffer w1) = Inr buf1"
        by blast
      from store_spots_result [OF s] have "length buf1 = 512"
        using lb by (simp add: w1_def)
      moreover have "length (martin w1) = 530"
        using lw by (simp add: w1_def)
      ultimately show ?thesis
        unfolding None
        by (simp add: advance_image_def s render_leds_def count_tick_def update_pixel_speed_def
            Let_def render_ready_def)
    next
      case (Some pic)
      from assms have off: "map offsets_of (led_map g) = map offsets_of led_map_init"
        and decay: "1 \<le> global_decay g" "global_decay g \<le> 2 ^ 22"
        and rng: "lights_in_range g" and gain: "\<bar>global_led_gain g\<bar> \<le> 2 ^ 32"
        and wd: "width pic \<noteq> 0" and ht: "height pic \<noteq> 0"
        and wh: "unat (width pic) \<le> 2 ^ 24" "unat (height pic) \<le> 2 ^ 24"
        and sz4: "image_size g div 4 \<noteq> 0"
        and sp: "0 \<le> global_pixel_speed g" "global_pixel_speed g \<le> 1"
        by (simp_all add: render_ready_def Some)
      from sz4 have sz: "image_size g \<noteq> 0" by (rule size_nonzero)
      then have "0 < unat (image_size g)" by (simp add: unat_gt_0)
      from wrap_offset_mod [OF this]
      obtain q where adv: "advance_image cfg g = Inr (g\<lparr>image_data := q\<rparr>)"
        by (simp add: advance_image_def Some)
      let ?g1 = "g\<lparr>image_data := q\<rparr>"
      have "\<forall>x \<in> set [SPOT_START..<SPOT_END]. x < length (buffer w1)"
        using lb by (simp add: SPOT_END_def w1_def)
      from store_spots_total [OF this] obtain buf1 where
        s: "store_spots [SPOT_START..<SPOT_END] ?g1 (buffer w1) = Inr buf1"
        by blast
      from store_spots_result [OF s] have l1: "length buf1 = 512"
        using lb by (simp add: w1_def)
      have rng1: "lights_in_range ?g1"
        using rng by (simp add: lights_in_range_def)
      have "\<forall>x \<in> set [0..<LEDS]. x < LEDS" by simp
      from led_loop_total [OF this, of ?g1 buf1 pic q] off l1 decay sz rng1 gain
      obtain p' buf2 g2 where
        ll: "led_loop pic [0..<LEDS] (q, buf1, ?g1) = Inr (p', buf2, g2)"
        and l2: "length buf2 = 512" and g2: "g2 = ?g1\<lparr>led_map := led_map g2\<rparr>"
        and o2: "map offsets_of (led_map g2) = map offsets_of led_map_init"
        and rng2: "lights_in_range g2"
        by auto
      have rl: "render_leds cfg buf1 ?g1 = Inr (buf2, g2)"
        by (simp add: render_leds_def Some ll)
      have f2: "global_decay g2 = global_decay g" "image_size g2 = image_size g"
        "global_pixel_speed g2 = global_pixel_speed g" "global_led_gain g2 = global_led_gain g"
        by (subst g2, simp)+
      have r2: "render_ready cfg (w1\<lparr>buffer := buf2\<rparr>) g2"
        using l2 lw o2 f2 decay wd ht wh sz4 sp rng2 gain by (simp add: render_ready_def Some w1_def)
      have d: "width pic \<noteq> 0" "height pic \<noteq> 0"
        "unat (width pic) \<le> 2 ^ 24" "unat (height pic) \<le> 2 ^ 24" "image_size g2 div 4 \<noteq> 0"
        "0 \<le> global_pixel_speed g2" "global_pixel_speed g2 \<le> 1"
        using wd ht wh sz4 sp f2 by simp_all
      note ups = update_pixel_speed_result [OF d, of r1 r2]
      have "\<exists>w' g'. count_tick cfg r1 r2 (w1\<lparr>buffer := buf2\<rparr>) g2 = Inr (w', g') \<and> render_ready cfg w' g'"
      proof (cases "counter w1 + 1 = of_nat (30 * FPS)")
        case True
        then show ?thesis
          using r2 by (simp add: count_tick_def Let_def Some ups render_ready_def lights_in_range_def)
      next
        case False
        then show ?thesis
          using r2 by (simp add: count_tick_def Let_def render_ready_def)
      qed
      then show ?thesis
        by (auto simp: adv s rl)
    qed
    with False m show ?thesis
      by (auto simp: usb_write_iter_def Let_def w1_def cong: if_cong sum.case_cong prod.case_cong)
  qed
qed


lemma usb_write_loop_total:
  "render_ready cfg w g \<Longrightarrow> \<exists>brk w' g'. usb_write_loop cfg inps (w, g) = Inr (brk, w', g')"
proof (induction inps arbitrary: w g)
  case Nil
  show ?case by auto
next
  case (Cons inp inps)
  obtain sent r1 r2 where inp: "inp = (sent, r1, r2)" by (cases inp)
  from usb_write_iter_total [OF Cons.prems, of sent r1 r2] obtain w1 g1 where
    it: "usb_write_iter cfg (sent, r1, r2) (w, g) = Inr (\<not> sent \<and> timeout w = 0, w1, g1)"
    and r: "render_ready cfg w1 g1"
    by blast
  show ?case
  proof (cases "\<not> sent \<and> timeout w = 0")
    case True
    with it show ?thesis by (auto simp: inp)
  next
    case False
    with it Cons.IH [OF r] show ?thesis by (auto simp: inp)
  qed
qed

lemma spot_after_pass:
  assumes run: "usb_write_iter cfg (sent, r1, r2) (w, g) = Inr (False, w', g')"
    and off: "cfg = None \<or> map offsets_of (led_map g) = map offsets_of led_map_init"
    and x: "x < SPOT_END"
  shows "buffer w' ! x = word_of_int \<lfloor>255 * max 0 (min 1 (global_spot_gain g))\<rfloor>"
  using run
proof (cases rule: usb_write_iter_cases)
  case (break m)
  then show ?thesis by simp
next
  case (pass m g1 buf1 buf2 g2 w2)
  note g1 = advance_image_gain [OF pass(4)]
  have "buf2 ! x = buf1 ! x"
  proof (cases cfg)
    case None
    with pass(6) show ?thesis by (simp add: render_leds_def)
  next
    case (Some pic)
    with off have "map offsets_of (led_map g) = map offsets_of led_map_init"
      by simp
    with g1 have "x \<notin> led_cells g1"
      using x by (intro led_cells_init) simp_all
    then show ?thesis
      by (rule render_leds_frame(2) [OF pass(6)])
  qed
  moreover have "buf1 ! x = word_of_int \<lfloor>255 * max 0 (min 1 (global_spot_gain g1))\<rfloor>"
    using store_spots_result [OF pass(5)] x by (simp add: SPOT_START_def)
  moreover have "buffer w' = buf2"
    using count_tick_buffer [OF pass(7)] pass(8) by simp
  ultimately show ?thesis using g1 by simp
qed

text \<open>
  Claim C5. \<open>store\<close> with \<open>max = 255\<close> writes the integer part of 255 times its input
  clamped to the range from 0 to 1: byte 0 for \<open>-5\<close>, 255 for 2, 127 for one half, 102
  for two fifths. A pass of the render loop that does not leave the loop returns with each
  of the channels 0 to 19 holding the byte of \<open>global_spot_gain\<close>, which is 102 for a
  gain of 0.4: the lights' cells, the only others written, start at channel 99. The
  channels hold that byte after every pass that returns with the lights' offsets as
  initialised, whatever the values of the lights.
\<close>

theorem spot_channels:
  "(ptr < length buf \<longrightarrow>
      store v buf ptr 255 = Inr (buf[ptr := word_of_int \<lfloor>255 * max 0 (min 1 v)\<rfloor>])
    \<and> store (- 5) buf ptr 255 = Inr (buf[ptr := 0])
    \<and> store 2 buf ptr 255 = Inr (buf[ptr := 255])
    \<and> store (1 / 2) buf ptr 255 = Inr (buf[ptr := 127])
    \<and> store (2 / 5) buf ptr 255 = Inr (buf[ptr := 102]))
   \<and> (render_ready cfg w g \<and> (sent \<or> timeout w \<noteq> 0) \<longrightarrow>
       (\<exists>w' g'. usb_write_iter cfg (sent, r1, r2) (w, g) = Inr (False, w', g')
          \<and> (\<forall>x. SPOT_START \<le> x \<and> x < SPOT_END \<longrightarrow>
                buffer w' ! x = word_of_int \<lfloor>255 * max 0 (min 1 (global_spot_gain g))\<rfloor>
                \<and> (global_spot_gain g = 2 / 5 \<longrightarrow> buffer w' ! x = 102))))
   \<and> (usb_write_iter cfg (sent, r1, r2) (w, g) = Inr (False, w2, g2)
        \<and> (cfg = None \<or> map offsets_of (led_map g) = map offsets_of led_map_init) \<longrightarrow>
       (\<forall>x. SPOT_START \<le> x \<and> x < SPOT_END \<longrightarrow>
          buffer w2 ! x = word_of_int \<lfloor>255 * max 0 (min 1 (global_spot_gain g))\<rfloor>))"
proof -
  have st: "ptr < length buf \<longrightarrow>
      store v buf ptr 255 = Inr (buf[ptr := word_of_int \<lfloor>255 * max 0 (min 1 v)\<rfloor>])
    \<and> store (- 5) buf ptr 255 = Inr (buf[ptr := 0])
    \<and> store 2 buf ptr 255 = Inr (buf[ptr := 255])
    \<and> store (1 / 2) buf ptr 255 = Inr (buf[ptr := 127])
    \<and> store (2 / 5) buf ptr 255 = Inr (buf[ptr := 102])"
    by (simp add: store_clamped)
  have "\<exists>w' g'. usb_write_iter cfg (sent, r1, r2) (w, g) = Inr (False, w', g')
          \<and> (\<forall>x. SPOT_START \<le> x \<and> x < SPOT_END \<longrightarrow>
                buffer w' ! x = word_of_int \<lfloor>255 * max 0 (min 1 (global_spot_gain g))\<rfloor>
                \<and> (global_spot_gain g = 2 / 5 \<longrightarrow> buffer w' ! x = 102))"
    if ready: "render_ready cfg w g" and stay: "sent \<or> timeout w \<noteq> 0"
  proof -
    from usb_write_iter_total [OF ready, of sent r1 r2] stay obtain w' g' where
      run: "usb_write_iter cfg (sent, r1, r2) (w, g) = Inr (False, w', g')"
      by auto
    from ready have off: "cfg = None \<or> map offsets_of (led_map g) = map offsets_of led_map_init"
      by (cases cfg) (simp_all add: render_ready_def)
    have byte: "buffer w' ! x = word_of_int \<lfloor>255 * max 0 (min 1 (global_spot_gain g))\<rfloor>"
      if "x < SPOT_END" for x
      using run off that by (rule spot_after_pass)
    have "buffer w' ! x = 102" if "x < SPOT_END" and "global_spot_gain g = 2 / 5" for x
      unfolding byte [OF that(1)] that(2) by simp
    with run byte show ?thesis by blast
  qed
  moreover have "\<forall>x. SPOT_START \<le> x \<and> x < SPOT_END \<longrightarrow>
          buffer w2 ! x = word_of_int \<lfloor>255 * max 0 (min 1 (global_spot_gain g))\<rfloor>"
    if "usb_write_iter cfg (sent, r1, r2) (w, g) = Inr (False, w2, g2)"
      and "cfg = None \<or> map offsets_of (led_map g) = map offsets_of led_map_init"
    using spot_after_pass [OF that] by blast
  ultimately show ?thesis using st by blast
qed

theorem spot_channels_witness:
  "store (- 5) [7] 0 255 = Inr [0]
   \<and> store 2 [7] 0 255 = Inr [255]
   \<and> store (1 / 2) [7] 0 255 = Inr [127]
   \<and> render_ready (Some \<lparr>width = 4, height = 2, header_pixel = (\<lambda>p. (0, 0, 0))\<rparr>) write_loop_init
        ((globals_init (Some \<lparr>width = 4, height = 2, header_pixel = (\<lambda>p. (0, 0, 0))\<rparr>))
           \<lparr>global_spot_gain := 2 / 5\<rparr>)
   \<and> (\<exists>w' g'. usb_write_iter (Some \<lparr>width = 4, height = 2, header_pixel = (\<lambda>p. (0, 0, 0))\<rparr>)
           (True, 0, 0)
           (write_loop_init,
            (globals_init (Some \<lparr>width = 4, height = 2, header_pixel = (\<lambda>p. (0, 0, 0))\<rparr>))
              \<lparr>global_spot_gain := 2 / 5\<rparr>)
         = Inr (False, w', g')
        \<and> buffer w' ! 0 = 102 \<and> buffer w' ! 19 = 102)"
proof -
  let ?pic = "\<lparr>width = 4, height = 2, header_pixel = (\<lambda>p. (0 :: u8, 0 :: u8, 0 :: u8))\<rparr>"
  let ?g = "(globals_init (Some ?pic))\<lparr>global_spot_gain := 2 / 5\<rparr>"
  have ready: "render_ready (Some ?pic) write_loop_init ?g"
    by (simp add: render_ready_def write_loop_init_def globals_init_def lights_in_range_init)
  note c5 = spot_channels [of 0 "[7]" 0 "Some ?pic" write_loop_init ?g True 0 0]
  from c5 ready obtain w' g' where
    run: "usb_write_iter (Some ?pic) (True, 0, 0) (write_loop_init, ?g) = Inr (False, w', g')"
    and b: "\<forall>x. SPOT_START \<le> x \<and> x < SPOT_END \<longrightarrow>
        buffer w' ! x = word_of_int \<lfloor>255 * max 0 (min 1 (global_spot_gain ?g))\<rfloor>
        \<and> (global_spot_gain ?g = 2 / 5 \<longrightarrow> buffer w' ! x = 102)"
    by blast
  have "buffer w' ! 0 = 102" "buffer w' ! 19 = 102"
    using b by (simp_all add: SPOT_START_def SPOT_END_def)
  moreover have "store (- 5) [7] 0 255 = Inr [0]" "store 2 [7] 0 255 = Inr [255]"
      "store (1 / 2) [7] 0 255 = Inr [127]"
    using c5 by simp_all
  ultimately show ?thesis using run ready by blast
qed

section \<open>Send failures\<close>

lemma count_tick_timeout:
  "count_tick cfg r1 r2 w g = Inr (w', g') \<Longrightarrow> timeout w' = timeout w"
  by (auto simp: count_tick_def Let_def split: if_splits sum.splits)

lemma usb_write_iter_timeout:
  assumes "usb_write_iter cfg (sent, r1, r2) (w, g) = Inr (brk, w', g')"
  shows "brk \<longleftrightarrow> \<not> sent \<and> timeout w = 0"
    and "\<not> brk \<Longrightarrow> timeout w' = (if sent then 3 else timeout w - 1)"
  using assms
  by (cases rule: usb_write_iter_cases; auto dest: count_tick_timeout)+

lemma prefix_failures:
  "m \<le> n \<Longrightarrow> prefix (replicate n False) oks \<Longrightarrow> prefix (replicate m False) oks"
proof -
  assume "m \<le> n" and p: "prefix (replicate n False) oks"
  then have "replicate n False = replicate m False @ replicate (n - m) False"
    by (simp add: replicate_add [symmetric])
  then have "prefix (replicate m False) (replicate n False)"
    by simp
  then show ?thesis using p by (rule prefix_order.trans)
qed

lemma usb_write_loop_break:
  "usb_write_loop cfg inps (w, g) = Inr (brk, w', g') \<Longrightarrow> unat (timeout w) \<le> 3 \<Longrightarrow>
   brk \<longleftrightarrow> prefix (replicate (Suc (unat (timeout w))) False) (map fst inps)
         \<or> sublist (replicate 4 False) (map fst inps)"
proof (induction inps arbitrary: w g)
  case Nil
  then show ?case by simp
next
  case (Cons inp inps)
  obtain sent r1 r2 where inp: "inp = (sent, r1, r2)" by (cases inp)
  let ?oks = "map fst inps"
  let ?four = "replicate 4 False"
  from Cons.prems(1) obtain b1 w1 g1 where
    it: "usb_write_iter cfg (sent, r1, r2) (w, g) = Inr (b1, w1, g1)"
    by (auto simp: inp split: sum.splits)
  note t = usb_write_iter_timeout [OF it]
  show ?case
  proof (cases b1)
    case True
    with Cons.prems(1) it have "brk" by (simp add: inp)
    moreover from True t(1) have "\<not> sent" "unat (timeout w) = 0" by simp_all
    ultimately show ?thesis by (simp add: inp)
  next
    case False
    with Cons.prems(1) it have rest: "usb_write_loop cfg inps (w1, g1) = Inr (brk, w', g')"
      by (simp add: inp)
    from False t(2) have t1: "timeout w1 = (if sent then 3 else timeout w - 1)" by simp
    show ?thesis
    proof (cases sent)
      case True
      with t1 have u1: "unat (timeout w1) = 3" by simp
      then have le1: "unat (timeout w1) \<le> 3" and s: "Suc (unat (timeout w1)) = 4" by simp_all
      have "brk \<longleftrightarrow> prefix ?four ?oks \<or> sublist ?four ?oks"
        using Cons.IH [OF rest le1] by (simp only: s)
      then have "brk \<longleftrightarrow> sublist ?four ?oks" by auto
      with True show ?thesis
        by (simp add: inp sublist_Cons_right numeral_eq_Suc)
    next
      case sent: False
      with False t(1) have "timeout w \<noteq> 0" by simp
      then have pos: "0 < unat (timeout w)" by (simp add: unat_gt_0)
      from \<open>timeout w \<noteq> 0\<close> have "unat (timeout w - 1) = unat (timeout w) - 1"
        by (rule unat_minus_one)
      with sent t1 have u1: "unat (timeout w1) = unat (timeout w) - 1"
        by simp
      then have s: "Suc (unat (timeout w1)) = unat (timeout w)" using pos by simp
      have le1: "unat (timeout w1) \<le> 3" using u1 Cons.prems(2) by simp
      have ih: "brk \<longleftrightarrow> prefix (replicate (unat (timeout w)) False) ?oks \<or> sublist ?four ?oks"
        using Cons.IH [OF rest le1] by (simp only: s)
      have "prefix (replicate 3 False) ?oks \<Longrightarrow> prefix (replicate (unat (timeout w)) False) ?oks"
        using Cons.prems(2) by (rule prefix_failures)
      then have "prefix ?four (False # ?oks) \<Longrightarrow> prefix (replicate (unat (timeout w)) False) ?oks"
        by (simp add: numeral_eq_Suc)
      with ih sent show ?thesis
        by (auto simp: inp sublist_Cons_right)
    qed
  qed
qed


lemma four_failures_index:
  "sublist (replicate 4 False) oks \<longleftrightarrow> (\<exists>i. i + 4 \<le> length oks \<and> (\<forall>j<4. \<not> oks ! (i + j)))"
proof
  assume "sublist (replicate 4 False) oks"
  then obtain ps ss where oks: "oks = ps @ replicate 4 False @ ss"
    by (auto simp: sublist_def)
  have "\<not> oks ! (length ps + j)" if "j < 4" for j
    using that by (simp add: oks nth_append)
  moreover have "length ps + 4 \<le> length oks" by (simp add: oks)
  ultimately show "\<exists>i. i + 4 \<le> length oks \<and> (\<forall>j<4. \<not> oks ! (i + j))" by blast
next
  assume "\<exists>i. i + 4 \<le> length oks \<and> (\<forall>j<4. \<not> oks ! (i + j))"
  then obtain i where i: "i + 4 \<le> length oks" and f: "\<forall>j<4. \<not> oks ! (i + j)" by blast
  have "take 4 (drop i oks) = replicate 4 False"
    using i f by (auto simp: list_eq_iff_nth_eq)
  then have "oks = take i oks @ replicate 4 False @ drop 4 (drop i oks)"
    by (metis append_take_drop_id)
  then show "sublist (replicate 4 False) oks"
    unfolding sublist_def by blast
qed

text \<open>
  Claim C2, amended. The budget \<open>timeout\<close> starts at 3; a failed send with the budget at
  0 leaves the loop, any other failed send takes 1 from the budget, and a successful send
  puts it back to 3. So the loop, started with the budget at 3, returns for every sequence
  of sends, and it has left by \<^verbatim>\<open>break\<close> exactly when the sequence has four failures
  in a row: three in a row are tolerated and the fourth leaves.
\<close>

theorem write_loop_halts:
  "(render_ready cfg w g \<longrightarrow> (\<exists>brk w' g'. usb_write_loop cfg inps (w, g) = Inr (brk, w', g')))
   \<and> (usb_write_loop cfg inps (w, g) = Inr (brk, w', g') \<and> timeout w = 3 \<longrightarrow>
      (brk \<longleftrightarrow> (\<exists>i. i + 4 \<le> length inps \<and> (\<forall>j<4. \<not> fst (inps ! (i + j))))))
   \<and> (usb_write_iter cfg (True, r1, r2) (w, g) = Inr (b, w1, g1) \<longrightarrow> \<not> b \<and> timeout w1 = 3)
   \<and> (usb_write_iter cfg (False, r1, r2) (w, g) = Inr (b, w1, g1) \<longrightarrow>
        (b \<longleftrightarrow> timeout w = 0) \<and> (\<not> b \<longrightarrow> timeout w1 = timeout w - 1))
   \<and> timeout write_loop_init = 3"
proof -
  have "brk \<longleftrightarrow> (\<exists>i. i + 4 \<le> length inps \<and> (\<forall>j<4. \<not> fst (inps ! (i + j))))"
    if run: "usb_write_loop cfg inps (w, g) = Inr (brk, w', g')" and t: "timeout w = 3"
  proof -
    from t have "unat (timeout w) \<le> 3" and s: "Suc (unat (timeout w)) = 4" by simp_all
    from usb_write_loop_break [OF run this(1)]
    have "brk \<longleftrightarrow> prefix (replicate 4 False) (map fst inps) \<or> sublist (replicate 4 False) (map fst inps)"
      by (simp only: s)
    then have "brk \<longleftrightarrow> sublist (replicate 4 False) (map fst inps)"
      by auto
    also have "\<dots> \<longleftrightarrow> (\<exists>i. i + 4 \<le> length (map fst inps) \<and> (\<forall>j<4. \<not> map fst inps ! (i + j)))"
      by (rule four_failures_index)
    also have "\<dots> \<longleftrightarrow> (\<exists>i. i + 4 \<le> length inps \<and> (\<forall>j<4. \<not> fst (inps ! (i + j))))"
    proof -
      have "map fst inps ! (i + j) = fst (inps ! (i + j))" if "i + 4 \<le> length inps" "j < 4" for i j
        using that by (simp add: nth_map)
      then show ?thesis by auto
    qed
    finally show ?thesis .
  qed
  moreover have "\<not> b \<and> timeout w1 = 3"
    if "usb_write_iter cfg (True, r1, r2) (w, g) = Inr (b, w1, g1)"
    using usb_write_iter_timeout [OF that] by simp
  moreover have "(b \<longleftrightarrow> timeout w = 0) \<and> (\<not> b \<longrightarrow> timeout w1 = timeout w - 1)"
    if "usb_write_iter cfg (False, r1, r2) (w, g) = Inr (b, w1, g1)"
    using usb_write_iter_timeout [OF that] by simp
  moreover have "timeout write_loop_init = 3"
    by (simp add: write_loop_init_def)
  moreover have "\<exists>brk w' g'. usb_write_loop cfg inps (w, g) = Inr (brk, w', g')"
    if "render_ready cfg w g"
    using that by (rule usb_write_loop_total)
  ultimately show ?thesis by blast
qed

theorem write_loop_halts_witness:
  "render_ready (Some \<lparr>width = 4, height = 2, header_pixel = (\<lambda>p. (0, 0, 0))\<rparr>) write_loop_init
       (globals_init (Some \<lparr>width = 4, height = 2, header_pixel = (\<lambda>p. (0, 0, 0))\<rparr>))
   \<and> (\<exists>w' g'. usb_write_loop (Some \<lparr>width = 4, height = 2, header_pixel = (\<lambda>p. (0, 0, 0))\<rparr>)
       [(False, 0, 0), (False, 0, 0), (False, 0, 0), (False, 0, 0)]
       (write_loop_init, globals_init (Some \<lparr>width = 4, height = 2, header_pixel = (\<lambda>p. (0, 0, 0))\<rparr>))
       = Inr (True, w', g'))
   \<and> (\<exists>w' g'. usb_write_loop (Some \<lparr>width = 4, height = 2, header_pixel = (\<lambda>p. (0, 0, 0))\<rparr>)
       [(False, 0, 0), (False, 0, 0), (False, 0, 0), (True, 0, 0), (False, 0, 0), (False, 0, 0), (False, 0, 0)]
       (write_loop_init, globals_init (Some \<lparr>width = 4, height = 2, header_pixel = (\<lambda>p. (0, 0, 0))\<rparr>))
       = Inr (False, w', g'))"
proof -
  let ?f = "(False, 0 :: u32, 0 :: u32)" and ?t = "(True, 0 :: u32, 0 :: u32)"
  let ?cfg = "Some \<lparr>width = 4, height = 2, header_pixel = (\<lambda>p. (0 :: u8, 0 :: u8, 0 :: u8))\<rparr>"
  let ?g = "globals_init ?cfg"
  have ready: "render_ready ?cfg write_loop_init ?g"
    by (simp add: render_ready_def write_loop_init_def globals_init_def lights_in_range_init)
  have t: "timeout write_loop_init = 3"
    by (simp add: write_loop_init_def)
  note returns = write_loop_halts [THEN conjunct1, rule_format, OF ready]
  note halts = write_loop_halts [THEN conjunct2, THEN conjunct1, rule_format, OF conjI, OF _ t]
  from returns [of "[?f, ?f, ?f, ?f]"]
  obtain b1 w1 g1 where r1: "usb_write_loop ?cfg [?f, ?f, ?f, ?f] (write_loop_init, ?g) = Inr (b1, w1, g1)"
    by blast
  have "\<forall>j<4. \<not> fst ([?f, ?f, ?f, ?f] ! (0 + j))"
    by (simp add: nth_Cons split: nat.splits)
  then have "\<exists>i. i + 4 \<le> length [?f, ?f, ?f, ?f] \<and> (\<forall>j<4. \<not> fst ([?f, ?f, ?f, ?f] ! (i + j)))"
    by (intro exI [of _ 0]) simp
  with halts [OF r1] have "b1" by simp
  from returns [of "[?f, ?f, ?f, ?t, ?f, ?f, ?f]"]
  obtain b2 w2 g2 where
    r2: "usb_write_loop ?cfg [?f, ?f, ?f, ?t, ?f, ?f, ?f] (write_loop_init, ?g) = Inr (b2, w2, g2)"
    by blast
  have "\<not> (\<exists>i. i + 4 \<le> length [?f, ?f, ?f, ?t, ?f, ?f, ?f]
      \<and> (\<forall>j<4. \<not> fst ([?f, ?f, ?f, ?t, ?f, ?f, ?f] ! (i + j))))"
  proof
    assume "\<exists>i. i + 4 \<le> length [?f, ?f, ?f, ?t, ?f, ?f, ?f]
      \<and> (\<forall>j<4. \<not> fst ([?f, ?f, ?f, ?t, ?f, ?f, ?f] ! (i + j)))"
    then obtain i where i: "i \<le> 3" and f: "\<forall>j<4. \<not> fst ([?f, ?f, ?f, ?t, ?f, ?f, ?f] ! (i + j))"
      by auto
    from i have "3 - i < 4" by simp
    with f have "\<not> fst ([?f, ?f, ?f, ?t, ?f, ?f, ?f] ! (i + (3 - i)))" by blast
    with i show False by simp
  qed
  with halts [OF r2] have "\<not> b2" by simp
  with \<open>b1\<close> r1 r2 ready show ?thesis by auto
qed

text \<open>
  Claim C2 as it is written says that three failures in a row end the loop. From the
  initial state, after three failed sends the loop has not left.
\<close>

theorem three_failures_counterexample:
  "\<exists>w' g'. usb_write_loop None [(False, 0, 0), (False, 0, 0), (False, 0, 0)]
       (write_loop_init, globals_init None) = Inr (False, w', g')"
proof -
  let ?f = "(False, 0 :: u32, 0 :: u32)"
  have ready: "render_ready None write_loop_init (globals_init None)"
    by (simp add: render_ready_def write_loop_init_def)
  have t: "unat (timeout write_loop_init) \<le> 3" "Suc (unat (timeout write_loop_init)) = 4"
    by (simp_all add: write_loop_init_def)
  from usb_write_loop_total [OF ready, of "[?f, ?f, ?f]"]
  obtain b w' g' where r: "usb_write_loop None [?f, ?f, ?f] (write_loop_init, globals_init None)
      = Inr (b, w', g')"
    by blast
  from usb_write_loop_break [OF r t(1)]
  have "b \<longleftrightarrow> prefix (replicate 4 False) (map fst [?f, ?f, ?f])
      \<or> sublist (replicate 4 False) (map fst [?f, ?f, ?f])"
    by (simp only: t(2))
  moreover have "\<not> sublist (replicate 4 False) (map fst [?f, ?f, ?f])"
  proof
    assume "sublist (replicate 4 False) (map fst [?f, ?f, ?f])"
    then have "length (replicate 4 False) \<le> length (map fst [?f, ?f, ?f])"
      by (rule sublist_length_le)
    then show False by simp
  qed
  ultimately have "\<not> b" by auto
  with r show ?thesis by auto
qed

section \<open>The periodic recomputation\<close>

lemma count_tick_counter:
  assumes "count_tick cfg r1 r2 w g = Inr (w', g')" and "unat (counter w) < 30 * FPS"
  shows "unat (counter w') = (unat (counter w) + 1) mod (30 * FPS)"
    and "recomputed w' = recomputed w + (unat (counter w) + 1) div (30 * FPS)"
    and "slept_usec w' = slept_usec w"
proof -
  let ?c = "unat (counter w)"
  have u: "unat (counter w + 1) = ?c + 1"
    using assms(2) by (simp add: unat_word_ariths FPS_def)
  have eq: "counter w + 1 = of_nat (30 * FPS) \<longleftrightarrow> ?c + 1 = 30 * FPS"
  proof
    assume "counter w + 1 = of_nat (30 * FPS)"
    then have "unat (counter w + 1) = unat (of_nat (30 * FPS) :: u32)" by simp
    then show "?c + 1 = 30 * FPS" by (simp add: u FPS_def)
  next
    assume "?c + 1 = 30 * FPS"
    then have "unat (counter w + 1) = unat (of_nat (30 * FPS) :: u32)" by (simp add: u FPS_def)
    then show "counter w + 1 = of_nat (30 * FPS)" by (simp only: word_unat_eq_iff)
  qed
  show "unat (counter w') = (?c + 1) mod (30 * FPS)"
    "recomputed w' = recomputed w + (?c + 1) div (30 * FPS)"
    "slept_usec w' = slept_usec w"
    using assms u eq
    by (auto simp: count_tick_def Let_def FPS_def split: if_splits sum.splits)
qed


lemma usb_write_iter_counter:
  assumes "usb_write_iter cfg inp (w, g) = Inr (False, w', g')" and "unat (counter w) < 30 * FPS"
  shows "unat (counter w') = (unat (counter w) + 1) mod (30 * FPS)"
    and "recomputed w' = recomputed w + (unat (counter w) + 1) div (30 * FPS)"
    and "slept_usec w' = slept_usec w + 1000000 div FPS"
proof -
  obtain sent r1 r2 where inp: "inp = (sent, r1, r2)" by (cases inp)
  from assms(1) [unfolded inp]
  have "unat (counter w') = (unat (counter w) + 1) mod (30 * FPS)
    \<and> recomputed w' = recomputed w + (unat (counter w) + 1) div (30 * FPS)
    \<and> slept_usec w' = slept_usec w + 1000000 div FPS"
  proof (cases rule: usb_write_iter_cases)
    case (break m)
    then show ?thesis by simp
  next
    case (pass m g1 buf1 buf2 g2 w2)
    from assms(2) pass(10) have "unat (counter w2) < 30 * FPS" by simp
    from count_tick_counter [OF pass(7) this] pass(10,12,13) show ?thesis by simp
  qed
  then show "unat (counter w') = (unat (counter w) + 1) mod (30 * FPS)"
    and "recomputed w' = recomputed w + (unat (counter w) + 1) div (30 * FPS)"
    and "slept_usec w' = slept_usec w + 1000000 div FPS"
    by simp_all
qed

lemma div_step:
  fixes a n k :: nat
  assumes "0 < k"
  shows "a div k + (a mod k + n) div k = (a + n) div k"
proof -
  have "a + n = k * (a div k) + (a mod k + n)"
    by (simp only: add.assoc [symmetric] mult_div_mod_eq)
  then have "(a + n) div k = (k * (a div k) + (a mod k + n)) div k"
    by (rule arg_cong)
  also have "\<dots> = a div k + (a mod k + n) div k"
  proof (rule div_mult_self4)
    show "k \<noteq> 0" using assms by simp
  qed
  finally show ?thesis by (rule sym)
qed

lemma usb_write_loop_counter:
  "usb_write_loop cfg inps (w, g) = Inr (False, w', g') \<Longrightarrow> unat (counter w) < 30 * FPS \<Longrightarrow>
   unat (counter w') = (unat (counter w) + length inps) mod (30 * FPS)
   \<and> recomputed w' = recomputed w + (unat (counter w) + length inps) div (30 * FPS)
   \<and> slept_usec w' = slept_usec w + length inps * (1000000 div FPS)"
proof (induction inps arbitrary: w g)
  case Nil
  then show ?case by simp
next
  case (Cons inp inps)
  from Cons.prems(1) obtain w1 g1 where
    it: "usb_write_iter cfg inp (w, g) = Inr (False, w1, g1)"
    and rest: "usb_write_loop cfg inps (w1, g1) = Inr (False, w', g')"
    by (auto split: sum.splits bool.splits)
  note c = usb_write_iter_counter [OF it Cons.prems(2)]
  have lt: "unat (counter w1) < 30 * FPS"
    unfolding c(1) by (simp add: FPS_def)
  from Cons.IH [OF rest lt]
  have ih: "unat (counter w') = (unat (counter w1) + length inps) mod (30 * FPS)"
    "recomputed w' = recomputed w1 + (unat (counter w1) + length inps) div (30 * FPS)"
    "slept_usec w' = slept_usec w1 + length inps * (1000000 div FPS)"
    by simp_all
  let ?c = "unat (counter w)" and ?n = "length inps"
  have a: "((?c + 1) mod (30 * FPS) + ?n) mod (30 * FPS) = (?c + length (inp # inps)) mod (30 * FPS)"
    by (simp add: mod_add_left_eq)
  have "(?c + 1) div (30 * FPS) + ((?c + 1) mod (30 * FPS) + ?n) div (30 * FPS)
      = (?c + 1 + ?n) div (30 * FPS)"
    by (rule div_step) (simp add: FPS_def)
  moreover have len: "?c + length (inp # inps) = ?c + 1 + ?n"
    by simp
  ultimately have b: "(?c + 1) div (30 * FPS) + ((?c + 1) mod (30 * FPS) + ?n) div (30 * FPS)
      = (?c + length (inp # inps)) div (30 * FPS)"
    by (simp only: len)
  have "unat (counter w') = (?c + length (inp # inps)) mod (30 * FPS)"
    by (simp only: ih(1) c(1) a)
  moreover have "recomputed w' = recomputed w + (?c + length (inp # inps)) div (30 * FPS)"
    by (simp only: ih(2) c(1) c(2) b [symmetric] add.assoc)
  moreover have "slept_usec w' = slept_usec w + length (inp # inps) * (1000000 div FPS)"
    by (simp add: ih(3) c(3))
  ultimately show ?case by blast
qed


lemma usb_write_loop_all_sent:
  "\<forall>inp \<in> set inps. fst inp \<Longrightarrow> usb_write_loop cfg inps (w, g) = Inr (brk, w', g') \<Longrightarrow> \<not> brk"
proof (induction inps arbitrary: w g)
  case Nil
  then show ?case by simp
next
  case (Cons inp inps)
  obtain r1 r2 where inp: "inp = (True, r1, r2)"
    using Cons.prems(1) by (cases inp) simp
  from Cons.prems(2) obtain b1 w1 g1 where
    it: "usb_write_iter cfg (True, r1, r2) (w, g) = Inr (b1, w1, g1)"
    by (auto simp: inp split: sum.splits)
  from usb_write_iter_timeout(1) [OF it] have "\<not> b1" by simp
  with Cons.prems(2) it have "usb_write_loop cfg inps (w1, g1) = Inr (brk, w', g')"
    by (simp add: inp)
  with Cons.IH Cons.prems(1) show ?case by simp
qed

lemma sent_run:
  assumes "render_ready cfg write_loop_init g" and "\<forall>inp \<in> set inps. fst inp"
  shows "\<exists>w' g'. usb_write_loop cfg inps (write_loop_init, g) = Inr (False, w', g')
    \<and> recomputed w' = length inps div (30 * FPS)
    \<and> unat (counter w') = length inps mod (30 * FPS)
    \<and> slept_usec w' = length inps * (1000000 div FPS)"
proof -
  have c: "unat (counter write_loop_init) < 30 * FPS"
    by (simp add: write_loop_init_def FPS_def)
  from usb_write_loop_total [OF assms(1), of inps] obtain brk w' g' where
    r: "usb_write_loop cfg inps (write_loop_init, g) = Inr (brk, w', g')"
    by blast
  from usb_write_loop_all_sent [OF assms(2) r] r
  have r': "usb_write_loop cfg inps (write_loop_init, g) = Inr (False, w', g')"
    by simp
  from usb_write_loop_counter [OF r' c]
  have "recomputed w' = length inps div (30 * FPS)"
    "unat (counter w') = length inps mod (30 * FPS)"
    "slept_usec w' = length inps * (1000000 div FPS)"
    by (simp_all add: write_loop_init_def)
  with r' show ?thesis by blast
qed

text \<open>
  What a pass does to the jump \<open>random_value\<close>: only \<open>update_pixel_speed\<close> assigns it,
  from the pixel speed and the image size, which no part of a pass changes.
\<close>

lemma update_others:
  "update which i r g b st = Inr st' \<Longrightarrow> st' = st\<lparr>led_map := led_map st'\<rparr>"
  by (auto simp: update_def Let_def split: if_splits sum.splits)

lemma led_iter_others:
  "led_iter pic x (p, buf, g) = Inr (p', buf', g') \<Longrightarrow> g' = g\<lparr>led_map := led_map g'\<rparr>"
  by (auto simp: led_iter_def split: option.splits prod.splits sum.splits dest: update_others)

lemma led_loop_others:
  "led_loop pic xs (p, buf, g) = Inr (p', buf', g') \<Longrightarrow> g' = g\<lparr>led_map := led_map g'\<rparr>"
proof (induction xs arbitrary: p buf g)
  case Nil
  then show ?case by simp
next
  case (Cons x xs)
  then obtain p1 buf1 g1 where it: "led_iter pic x (p, buf, g) = Inr (p1, buf1, g1)"
    and rest: "led_loop pic xs (p1, buf1, g1) = Inr (p', buf', g')"
    by (auto split: sum.splits)
  note a = led_iter_others [OF it] and b = Cons.IH [OF rest]
  show ?case by (subst b, subst a) simp
qed

lemma render_leds_others:
  "render_leds cfg buf g = Inr (buf', g') \<Longrightarrow> g' = g\<lparr>led_map := led_map g'\<rparr>"
  by (auto simp: render_leds_def split: option.splits sum.splits dest: led_loop_others)

lemma advance_image_others:
  "advance_image cfg g = Inr g' \<Longrightarrow> g' = g\<lparr>image_data := image_data g'\<rparr>"
  by (auto simp: advance_image_def split: option.splits)

lemma update_pixel_speed_others:
  "update_pixel_speed cfg r1 r2 g = Inr g' \<Longrightarrow> g' = g\<lparr>random_value := random_value g'\<rparr>"
  by (auto simp: update_pixel_speed_def Let_def split: option.splits if_splits sum.splits)

lemma update_pixel_speed_cong:
  assumes "update_pixel_speed cfg r1 r2 g2 = Inr g'"
    and "global_pixel_speed g2 = global_pixel_speed g" and "image_size g2 = image_size g"
    and "random_value g2 = random_value g"
  shows "\<exists>gu. update_pixel_speed cfg r1 r2 g = Inr gu \<and> random_value gu = random_value g'"
  using assms
  by (auto simp: update_pixel_speed_def Let_def split: option.splits if_splits sum.splits)

lemma count_tick_jump:
  assumes "count_tick cfg r1 r2 w g = Inr (w', g')" and "unat (counter w) < 30 * FPS"
  shows "unat (counter w) + 1 \<noteq> 30 * FPS \<Longrightarrow> g' = g"
    and "unat (counter w) + 1 = 30 * FPS \<Longrightarrow> update_pixel_speed cfg r1 r2 g = Inr g'"
proof -
  let ?c = "unat (counter w)"
  have u: "unat (counter w + 1) = ?c + 1"
    using assms(2) by (simp add: unat_word_ariths FPS_def)
  have eq: "counter w + 1 = of_nat (30 * FPS) \<longleftrightarrow> ?c + 1 = 30 * FPS"
  proof
    assume "counter w + 1 = of_nat (30 * FPS)"
    then have "unat (counter w + 1) = unat (of_nat (30 * FPS) :: u32)" by simp
    then show "?c + 1 = 30 * FPS" by (simp add: u FPS_def)
  next
    assume "?c + 1 = 30 * FPS"
    then have "unat (counter w + 1) = unat (of_nat (30 * FPS) :: u32)" by (simp add: u FPS_def)
    then show "counter w + 1 = of_nat (30 * FPS)" by (simp only: word_unat_eq_iff)
  qed
  show "g' = g" if "?c + 1 \<noteq> 30 * FPS"
    using assms(1) eq that by (auto simp: count_tick_def Let_def split: if_splits sum.splits)
  show "update_pixel_speed cfg r1 r2 g = Inr g'" if "?c + 1 = 30 * FPS"
    using assms(1) eq that by (auto simp: count_tick_def Let_def split: if_splits sum.splits)
qed

lemma usb_write_iter_jump:
  assumes "usb_write_iter cfg (sent, r1, r2) (w, g) = Inr (False, w', g')"
    and "unat (counter w) < 30 * FPS"
  shows "global_pixel_speed g' = global_pixel_speed g" and "image_size g' = image_size g"
    and "unat (counter w) + 1 \<noteq> 30 * FPS \<Longrightarrow> random_value g' = random_value g"
    and "unat (counter w) + 1 = 30 * FPS \<Longrightarrow>
         \<exists>gu. update_pixel_speed cfg r1 r2 g = Inr gu \<and> random_value g' = random_value gu"
proof -
  have "global_pixel_speed g' = global_pixel_speed g \<and> image_size g' = image_size g
    \<and> (unat (counter w) + 1 \<noteq> 30 * FPS \<longrightarrow> random_value g' = random_value g)
    \<and> (unat (counter w) + 1 = 30 * FPS \<longrightarrow>
         (\<exists>gu. update_pixel_speed cfg r1 r2 g = Inr gu \<and> random_value g' = random_value gu))"
    using assms(1)
  proof (cases rule: usb_write_iter_cases)
    case (break m)
    then show ?thesis by simp
  next
    case (pass m g1 buf1 buf2 g2 w2)
    note a = advance_image_others [OF pass(4)] and b = render_leds_others [OF pass(6)]
    have g2: "global_pixel_speed g2 = global_pixel_speed g" "image_size g2 = image_size g"
      "random_value g2 = random_value g"
      by (subst b, subst a, simp)+
    from assms(2) pass(10) have c: "unat (counter w2) < 30 * FPS" by simp
    note j = count_tick_jump [OF pass(7) c, unfolded pass(10)]
    show ?thesis
    proof (cases "unat (counter w) + 1 = 30 * FPS")
      case True
      note u = j(2) [OF True]
      note o = update_pixel_speed_others [OF u]
      have "global_pixel_speed g' = global_pixel_speed g2" "image_size g' = image_size g2"
        by (subst o, simp)+
      moreover from update_pixel_speed_cong [OF u g2]
      have "\<exists>gu. update_pixel_speed cfg r1 r2 g = Inr gu \<and> random_value g' = random_value gu"
        by auto
      ultimately show ?thesis using True g2 by simp
    next
      case False
      from j(1) [OF False] g2 False show ?thesis by simp
    qed
  qed
  then show "global_pixel_speed g' = global_pixel_speed g" and "image_size g' = image_size g"
    and "unat (counter w) + 1 \<noteq> 30 * FPS \<Longrightarrow> random_value g' = random_value g"
    and "unat (counter w) + 1 = 30 * FPS \<Longrightarrow>
         \<exists>gu. update_pixel_speed cfg r1 r2 g = Inr gu \<and> random_value g' = random_value gu"
    by simp_all
qed

lemma usb_write_loop_quiet:
  "usb_write_loop cfg inps (w, g) = Inr (False, w', g') \<Longrightarrow>
   unat (counter w) + length inps < 30 * FPS \<Longrightarrow>
   random_value g' = random_value g \<and> global_pixel_speed g' = global_pixel_speed g
   \<and> image_size g' = image_size g"
proof (induction inps arbitrary: w g)
  case Nil
  then show ?case by simp
next
  case (Cons inp inps)
  obtain sent r1 r2 where inp: "inp = (sent, r1, r2)" by (cases inp)
  from Cons.prems(1) obtain w1 g1 where
    it: "usb_write_iter cfg (sent, r1, r2) (w, g) = Inr (False, w1, g1)"
    and rest: "usb_write_loop cfg inps (w1, g1) = Inr (False, w', g')"
    by (auto simp: inp split: sum.splits bool.splits)
  from Cons.prems(2) have c: "unat (counter w) < 30 * FPS" and n: "unat (counter w) + 1 \<noteq> 30 * FPS"
    by simp_all
  note j = usb_write_iter_jump [OF it c]
  have c1: "unat (counter w1) = unat (counter w) + 1"
    using usb_write_iter_counter(1) [OF it c] Cons.prems(2) by simp
  from Cons.prems(2) have "unat (counter w1) + length inps < 30 * FPS"
    by (simp add: c1)
  from Cons.IH [OF rest this] j(1,2) j(3) [OF n] show ?case by simp
qed

lemma usb_write_loop_ready:
  "render_ready cfg w g \<Longrightarrow> usb_write_loop cfg inps (w, g) = Inr (False, w', g') \<Longrightarrow>
   render_ready cfg w' g'"
proof (induction inps arbitrary: w g)
  case Nil
  then show ?case by simp
next
  case (Cons inp inps)
  obtain sent r1 r2 where inp: "inp = (sent, r1, r2)" by (cases inp)
  from usb_write_iter_total [OF Cons.prems(1), of sent r1 r2] obtain w1 g1 where
    it: "usb_write_iter cfg (sent, r1, r2) (w, g) = Inr (\<not> sent \<and> timeout w = 0, w1, g1)"
    and r: "render_ready cfg w1 g1"
    by blast
  show ?case
  proof (cases "\<not> sent \<and> timeout w = 0")
    case True
    with it Cons.prems(2) show ?thesis by (simp add: inp)
  next
    case False
    with it Cons.prems(2) have "usb_write_loop cfg inps (w1, g1) = Inr (False, w', g')"
      by (simp add: inp)
    from Cons.IH [OF r this] show ?thesis .
  qed
qed

text \<open>
  Claim C7, amended. A pass that stays in the loop sleeps \<open>1000000 / FPS\<close> microseconds
  and counts one tick. The pass on which the counter reaches \<open>30 * FPS\<close> sets it back to 0
  and recomputes the jump \<open>random_value\<close> as \<open>update_pixel_speed\<close> gives it for the
  current pixel speed and the pass's two random numbers, with a picture the scaled and
  truncated draws combined into four times a pixel index; every other pass leaves the jump
  as it is, and no pass changes the pixel speed. From the start of the loop, \<open>n\<close> passes
  whose sends succeed all return, the jump is unchanged while \<open>n < 300\<close>, and after them
  there have been \<open>n div 300\<close> recomputations and \<open>n * 100000\<close> microseconds of sleep:
  one recomputation every 300 ticks, which is every 30 seconds of render time.
\<close>

theorem recompute_schedule:
  "(render_ready cfg write_loop_init g \<and> (\<forall>inp \<in> set inps. fst inp) \<longrightarrow>
      (\<exists>w' g'. usb_write_loop cfg inps (write_loop_init, g) = Inr (False, w', g')
          \<and> render_ready cfg w' g'))
   \<and> (usb_write_loop cfg inps (write_loop_init, g) = Inr (False, w', g') \<longrightarrow>
      recomputed w' = length inps div (30 * FPS)
      \<and> unat (counter w') = length inps mod (30 * FPS)
      \<and> slept_usec w' = length inps * (1000000 div FPS)
      \<and> global_pixel_speed g' = global_pixel_speed g
      \<and> (length inps < 30 * FPS \<longrightarrow> random_value g' = random_value g))
   \<and> (usb_write_iter cfg (sent, r1, r2) (w, g) = Inr (False, w1, g1) \<and> unat (counter w) < 30 * FPS \<longrightarrow>
        recomputed w1 = (if unat (counter w) + 1 = 30 * FPS then recomputed w + 1 else recomputed w)
        \<and> unat (counter w1) = (if unat (counter w) + 1 = 30 * FPS then 0 else unat (counter w) + 1)
        \<and> slept_usec w1 = slept_usec w + 1000000 div FPS
        \<and> global_pixel_speed g1 = global_pixel_speed g
        \<and> (unat (counter w) + 1 \<noteq> 30 * FPS \<longrightarrow> random_value g1 = random_value g)
        \<and> (unat (counter w) + 1 = 30 * FPS \<longrightarrow>
             (\<exists>gu. update_pixel_speed cfg r1 r2 g = Inr gu \<and> random_value g1 = random_value gu))
        \<and> (unat (counter w) + 1 = 30 * FPS \<and> cfg = Some pic \<and> render_ready cfg w g \<longrightarrow>
             random_value g1 = 4 *
               ((word_of_int \<lfloor>binary32 (real (unat (r1 mod width pic)) * global_pixel_speed g)\<rfloor>
                 + word_of_int \<lfloor>binary32 (real (unat (r2 mod height pic)) * global_pixel_speed g)\<rfloor>
                     * width pic)
                mod (image_size g div 4))))
   \<and> 30 * FPS = 300
   \<and> 30 * FPS * (1000000 div FPS) = 30 * 1000000"
proof -
  have c: "unat (counter write_loop_init) < 30 * FPS"
    by (simp add: write_loop_init_def FPS_def)
  have loop: "recomputed w' = length inps div (30 * FPS)
      \<and> unat (counter w') = length inps mod (30 * FPS)
      \<and> slept_usec w' = length inps * (1000000 div FPS)
      \<and> global_pixel_speed g' = global_pixel_speed g
      \<and> (length inps < 30 * FPS \<longrightarrow> random_value g' = random_value g)"
    if run: "usb_write_loop cfg inps (write_loop_init, g) = Inr (False, w', g')"
  proof -
    have speed: "global_pixel_speed g2 = global_pixel_speed g0"
      if "usb_write_loop cfg xs (w0, g0) = Inr (False, w2, g2)" and "unat (counter w0) < 30 * FPS"
      for xs w0 g0 w2 g2
      using that
    proof (induction xs arbitrary: w0 g0)
      case Nil
      then show ?case by simp
    next
      case (Cons x xs)
      obtain s a b where x: "x = (s, a, b)" by (cases x)
      from Cons.prems(1) obtain wm gm where
        it: "usb_write_iter cfg (s, a, b) (w0, g0) = Inr (False, wm, gm)"
        and rest: "usb_write_loop cfg xs (wm, gm) = Inr (False, w2, g2)"
        by (auto simp: x split: sum.splits bool.splits)
      have "unat (counter wm) < 30 * FPS"
        unfolding usb_write_iter_counter(1) [OF it Cons.prems(2)] by (simp add: FPS_def)
      from Cons.IH [OF rest this] usb_write_iter_jump(1) [OF it Cons.prems(2)]
      show ?case by simp
    qed
    have quiet: "random_value g' = random_value g" if "length inps < 30 * FPS"
      using usb_write_loop_quiet [OF run] that by (simp add: write_loop_init_def)
    from usb_write_loop_counter [OF run c] speed [OF run c] quiet
    show ?thesis by (simp add: write_loop_init_def)
  qed
  have pass: "recomputed w1 = (if unat (counter w) + 1 = 30 * FPS then recomputed w + 1 else recomputed w)
        \<and> unat (counter w1) = (if unat (counter w) + 1 = 30 * FPS then 0 else unat (counter w) + 1)
        \<and> slept_usec w1 = slept_usec w + 1000000 div FPS
        \<and> global_pixel_speed g1 = global_pixel_speed g
        \<and> (unat (counter w) + 1 \<noteq> 30 * FPS \<longrightarrow> random_value g1 = random_value g)
        \<and> (unat (counter w) + 1 = 30 * FPS \<longrightarrow>
             (\<exists>gu. update_pixel_speed cfg r1 r2 g = Inr gu \<and> random_value g1 = random_value gu))
        \<and> (unat (counter w) + 1 = 30 * FPS \<and> cfg = Some pic \<and> render_ready cfg w g \<longrightarrow>
             random_value g1 = 4 *
               ((word_of_int \<lfloor>binary32 (real (unat (r1 mod width pic)) * global_pixel_speed g)\<rfloor>
                 + word_of_int \<lfloor>binary32 (real (unat (r2 mod height pic)) * global_pixel_speed g)\<rfloor>
                     * width pic)
                mod (image_size g div 4)))"
    if it: "usb_write_iter cfg (sent, r1, r2) (w, g) = Inr (False, w1, g1)"
      and lt: "unat (counter w) < 30 * FPS"
  proof -
    note k = usb_write_iter_counter [OF it lt]
    note j = usb_write_iter_jump [OF it lt]
    have a: "recomputed w1 = (if unat (counter w) + 1 = 30 * FPS then recomputed w + 1 else recomputed w)"
      using k(2) lt by (simp add: FPS_def)
    have b: "unat (counter w1) = (if unat (counter w) + 1 = 30 * FPS then 0 else unat (counter w) + 1)"
      using k(1) lt by (simp add: FPS_def)
    have e: "random_value g1 = 4 *
               ((word_of_int \<lfloor>binary32 (real (unat (r1 mod width pic)) * global_pixel_speed g)\<rfloor>
                 + word_of_int \<lfloor>binary32 (real (unat (r2 mod height pic)) * global_pixel_speed g)\<rfloor>
                     * width pic)
                mod (image_size g div 4))"
      if t: "unat (counter w) + 1 = 30 * FPS" and p: "cfg = Some pic" and r: "render_ready cfg w g"
    proof -
      from r have d: "width pic \<noteq> 0" "height pic \<noteq> 0"
          "unat (width pic) \<le> 2 ^ 24" "unat (height pic) \<le> 2 ^ 24" "image_size g div 4 \<noteq> 0"
          "0 \<le> global_pixel_speed g" "global_pixel_speed g \<le> 1"
        by (simp_all add: render_ready_def p)
      from j(4) [OF t] obtain gu where
        u: "update_pixel_speed cfg r1 r2 g = Inr gu" and v: "random_value g1 = random_value gu"
        by blast
      from u [unfolded p update_pixel_speed_result [OF d, of r1 r2]] v
      show ?thesis by auto
    qed
    from a b k(3) j(1) j(3) j(4) e show ?thesis by blast
  qed
  have numbers: "30 * FPS = 300" "30 * FPS * (1000000 div FPS) = 30 * 1000000"
    by (simp_all add: FPS_def)
  have total: "\<exists>w' g'. usb_write_loop cfg inps (write_loop_init, g) = Inr (False, w', g')
      \<and> render_ready cfg w' g'"
    if "render_ready cfg write_loop_init g" and "\<forall>inp \<in> set inps. fst inp"
  proof -
    from sent_run [OF that] obtain w' g' where
      r: "usb_write_loop cfg inps (write_loop_init, g) = Inr (False, w', g')"
      by blast
    from usb_write_loop_ready [OF that(1) r] r show ?thesis by blast
  qed
  show ?thesis
    using total loop pass numbers by (intro conjI impI) blast+
qed

text \<open>
  A picture of 4 by 2 pixels, a pixel speed of 1 and the random numbers 7 and 5: the first
  299 passes leave the jump at 0, and the 300th sets it to \<open>4 * ((3 + 1 * 4) mod 8)\<close>.
\<close>

theorem recompute_schedule_witness:
  "\<exists>wa ga wb gb.
      usb_write_loop (Some \<lparr>width = 4, height = 2, header_pixel = (\<lambda>p. (0, 0, 0))\<rparr>)
         (replicate 299 (True, 7, 5))
         (write_loop_init,
          (globals_init (Some \<lparr>width = 4, height = 2, header_pixel = (\<lambda>p. (0, 0, 0))\<rparr>))
            \<lparr>global_pixel_speed := 1\<rparr>)
       = Inr (False, wa, ga)
      \<and> recomputed wa = 0 \<and> slept_usec wa = 29900000 \<and> random_value ga = 0
      \<and> usb_write_iter (Some \<lparr>width = 4, height = 2, header_pixel = (\<lambda>p. (0, 0, 0))\<rparr>)
         (True, 7, 5) (wa, ga) = Inr (False, wb, gb)
      \<and> recomputed wb = 1 \<and> slept_usec wb = 30000000 \<and> unat (counter wb) = 0
      \<and> random_value gb = 28"
proof -
  let ?pic = "\<lparr>width = 4, height = 2, header_pixel = (\<lambda>p. (0 :: u8, 0 :: u8, 0 :: u8))\<rparr>"
  let ?cfg = "Some ?pic"
  let ?g = "(globals_init ?cfg)\<lparr>global_pixel_speed := 1\<rparr>"
  let ?t = "(True, 7 :: u32, 5 :: u32)"
  have ready: "render_ready ?cfg write_loop_init ?g"
    by (simp add: render_ready_def write_loop_init_def globals_init_def lights_in_range_init)
  have sent: "\<forall>inp \<in> set (replicate 299 ?t). fst inp"
    by simp
  from recompute_schedule [THEN conjunct1, rule_format, OF conjI, OF ready sent]
  obtain wa ga where a: "usb_write_loop ?cfg (replicate 299 ?t) (write_loop_init, ?g) = Inr (False, wa, ga)"
    and ra: "render_ready ?cfg wa ga"
    by blast
  from recompute_schedule [THEN conjunct2, THEN conjunct1, rule_format, OF a]
  have ca: "recomputed wa = 0" "unat (counter wa) = 299" "slept_usec wa = 29900000"
    "global_pixel_speed ga = 1" "random_value ga = 0"
    by (simp_all add: FPS_def globals_init_def)
  from usb_write_iter_total [OF ra, of True 7 5]
  obtain wb gb where b: "usb_write_iter ?cfg ?t (wa, ga) = Inr (False, wb, gb)"
    by auto
  have lt: "unat (counter wa) < 30 * FPS" "unat (counter wa) + 1 = 30 * FPS"
    by (simp_all add: ca(2) FPS_def)
  have sz: "image_size ga = 32"
    using usb_write_loop_quiet [OF a] by (simp add: write_loop_init_def FPS_def globals_init_def)
  have three: "binary32 3 = 3" using binary32_of_nat [of 3] by simp
  have one: "binary32 1 = 1" using binary32_of_nat [of 1] by simp
  from recompute_schedule [THEN conjunct2, THEN conjunct2, THEN conjunct1, rule_format,
      OF conjI, OF b lt(1), of ?pic]
  have cb: "recomputed wb = 1" "unat (counter wb) = 0" "slept_usec wb = 30000000"
    "random_value gb = 28"
    using lt(2) ra by (simp_all add: ca sz three one FPS_def)
  from a ca b cb show ?thesis by blast
qed

text \<open>
  Claim C7 as it is written puts the recomputation every 3 seconds. After 30 passes, which
  sleep 3 seconds in all, none has happened.
\<close>

theorem three_seconds_counterexample:
  "\<exists>w' g'. usb_write_loop None (replicate 30 (True, 0, 0)) (write_loop_init, globals_init None)
       = Inr (False, w', g')
     \<and> slept_usec w' = 3000000 \<and> recomputed w' = 0"
proof -
  have ready: "render_ready None write_loop_init (globals_init None)"
    by (simp add: render_ready_def write_loop_init_def)
  have "\<forall>inp \<in> set (replicate 30 (True, 0 :: u32, 0 :: u32)). fst inp"
    by simp
  from sent_run [OF ready this] obtain w' g' where
    "usb_write_loop None (replicate 30 (True, 0, 0)) (write_loop_init, globals_init None)
       = Inr (False, w', g')"
    "recomputed w' = length (replicate 30 (True, 0 :: u32, 0 :: u32)) div (30 * FPS)"
    "slept_usec w' = length (replicate 30 (True, 0 :: u32, 0 :: u32)) * (1000000 div FPS)"
    by blast
  then show ?thesis
    by (intro exI [of _ w'] exI [of _ g']) (simp add: FPS_def)
qed

end
